theory Spec2Isabelle
  imports Main "HOL-Library.Word"
begin

unbundle bit_operations_syntax

section \<open>Reserved bytes of the transducer alphabet\<close>

text \<open>
  \<^verbatim>\<open>decoder.h\<close> and \<^verbatim>\<open>viterbi.h\<close> include \<^verbatim>\<open>trans.h\<close>, which is not among the
  sources. The reserved bytes it defines (\<^verbatim>\<open>MachineNull\<close>, \<^verbatim>\<open>MachineBit0\<close>, ...) and the
  static predicate \<^verbatim>\<open>Machine::isControl\<close> are therefore parameters of the model: every
  function that reads one of them takes a \<open>Symbols\<close> record, and every result below holds
  for whatever values \<^verbatim>\<open>trans.h\<close> gives them.
\<close>

type_synonym InputSymbol = char
type_synonym OutputSymbol = char
type_synonym State = nat
type_synonym byte = "8 word"

record Symbols =
  MachineNull :: char
  MachineBit0 :: char
  MachineBit1 :: char
  MachineSOF :: char
  MachineEOF :: char
  isControl :: "char \<Rightarrow> bool"

section \<open>BinaryWriter (decoder.h, lines 193-240)\<close>

text \<open>
  \<open>bw_outs\<close> is the sequence of bytes sent to the \<^verbatim>\<open>ostream\<close> so far, \<open>outbuf\<close> the
  \<^verbatim>\<open>vguard<bool>\<close> of pending bits. The constructor sets \<open>msb0\<close> to false and leaves
  \<open>outbuf\<close> empty.
\<close>

record BinaryWriter =
  bw_outs :: "byte list"
  msb0 :: bool
  outbuf :: "bool list"

definition BinaryWriter_init :: "byte list \<Rightarrow> BinaryWriter" where
  "BinaryWriter_init os = \<lparr>bw_outs = os, msb0 = False, outbuf = []\<rparr>"

text \<open>
  The shift count \<^verbatim>\<open>msb0 ? (7-n) : n\<close> of \<^verbatim>\<open>1 << ...\<close>. The index \<open>n\<close> is a
  \<^verbatim>\<open>size_t\<close>, so \<^verbatim>\<open>7-n\<close> wraps around for \<open>n > 7\<close>, and a shift of the \<^verbatim>\<open>int\<close>
  constant 1 by 31 or more is undefined: \<open>None\<close> stands for those cases.
\<close>

definition shiftCount :: "bool \<Rightarrow> nat \<Rightarrow> nat option" where
  "shiftCount msb n =
     (if msb then (if n \<le> 7 then Some (7 - n) else None)
      else (if n < 31 then Some n else None))"

text \<open>
  The loop of \<^verbatim>\<open>flush\<close>, from index \<open>n\<close> over the bits still to visit; \<open>c\<close> is the
  \<^verbatim>\<open>unsigned char\<close> accumulated so far (the \<^verbatim>\<open>int\<close> result of \<^verbatim>\<open>c | (1 << k)\<close> is
  truncated to 8 bits by the assignment, as \<open>push_bit\<close> on \<open>8 word\<close> is).
\<close>

fun flush_loop :: "bool \<Rightarrow> bool list \<Rightarrow> nat \<Rightarrow> byte \<Rightarrow> byte option" where
  "flush_loop msb [] n c = Some c"
| "flush_loop msb (b # bs) n c =
     (if b then
        (case shiftCount msb n of
           None \<Rightarrow> None
         | Some k \<Rightarrow> flush_loop msb bs (Suc n) (c OR push_bit k 1))
      else flush_loop msb bs (Suc n) c)"

definition bw_flush :: "BinaryWriter \<Rightarrow> BinaryWriter option" where
  "bw_flush w =
     (case flush_loop (msb0 w) (outbuf w) 0 0 of
        None \<Rightarrow> None
      | Some c \<Rightarrow> Some (w\<lparr>bw_outs := bw_outs w @ [c], outbuf := []\<rparr>))"

text \<open>
  \<^verbatim>\<open>write (buf, n)\<close>: the buffer is the list of its \<open>n\<close> characters. The branch for a
  character that is not a bit only logs (a warning, or a message at level 2) and leaves
  the writer as it is.
\<close>

fun bw_write :: "Symbols \<Rightarrow> BinaryWriter \<Rightarrow> char list \<Rightarrow> BinaryWriter option" where
  "bw_write sy w [] = Some w"
| "bw_write sy w (c # cs) =
     (if c = MachineBit0 sy \<or> c = MachineBit1 sy then
        (let w1 = w\<lparr>outbuf := outbuf w @ [c = MachineBit1 sy]\<rparr> in
         if length (outbuf w1) = 8 then
           (case bw_flush w1 of None \<Rightarrow> None | Some w2 \<Rightarrow> bw_write sy w2 cs)
         else bw_write sy w1 cs)
      else bw_write sy w cs)"

text \<open>The characters of a buffer that are bit symbols.\<close>

definition bitChars :: "Symbols \<Rightarrow> char list \<Rightarrow> char list" where
  "bitChars sy buf = filter (\<lambda>c. c = MachineBit0 sy \<or> c = MachineBit1 sy) buf"

text \<open>The buffer that spells a group of bits.\<close>

definition bitString :: "Symbols \<Rightarrow> bool list \<Rightarrow> char list" where
  "bitString sy bs = map (\<lambda>b. if b then MachineBit1 sy else MachineBit0 sy) bs"

text \<open>A sample assignment of the reserved bytes, for evaluating the model.\<close>

definition sampleSymbols :: Symbols where
  "sampleSymbols =
     \<lparr>MachineNull = CHR 0x00, MachineBit0 = CHR ''0'', MachineBit1 = CHR ''1'',
      MachineSOF = CHR ''^'', MachineEOF = CHR ''$'',
      isControl = (\<lambda>c. c \<in> set ''abcd'')\<rparr>"

section \<open>ViterbiMatrix: cell layout (viterbi.h)\<close>

text \<open>
  \<^verbatim>\<open>maxDupLen\<close>, \<^verbatim>\<open>nStates\<close> and \<^verbatim>\<open>seqLen\<close> are \<^verbatim>\<open>size_t\<close> fields and the index
  arithmetic is done in \<^verbatim>\<open>size_t\<close>: 64-bit words, whose \<open>+\<close>, \<open>-\<close> and \<open>*\<close> wrap around.
  The types \<^verbatim>\<open>State\<close> and \<^verbatim>\<open>Pos\<close> of the arguments are declared outside the sources;
  a value of either is taken after its conversion to \<^verbatim>\<open>size_t\<close>. The vector \<^verbatim>\<open>cell\<close>
  of log-probabilities and the score tables are not read by the functions below.
\<close>

type_synonym size_t = "64 word"
type_synonym Pos = size_t
type_synonym MutStateIndex = size_t

record ViterbiMatrix =
  maxDupLen :: size_t
  nStates :: size_t
  seqLen :: size_t

text \<open>
  \<^verbatim>\<open>StateScores\<close>: only \<^verbatim>\<open>leftContext\<close> is read here; the type \<^verbatim>\<open>Base\<close> of its
  elements is a type parameter.
\<close>

record 'b StateScores =
  leftContext :: "'b list"

text \<open>
  \<^verbatim>\<open>nCells (machine, params, seq)\<close>, given \<^verbatim>\<open>params.maxDupLen()\<close>,
  \<^verbatim>\<open>machine.nStates()\<close> and \<^verbatim>\<open>seq.size()\<close>.
\<close>

definition nCells :: "size_t \<Rightarrow> size_t \<Rightarrow> size_t \<Rightarrow> size_t" where
  "nCells paramsMaxDupLen machineNStates seqSize =
     (paramsMaxDupLen + 2) * machineNStates * (seqSize + 1)"

definition sMutStateIndex :: MutStateIndex where
  "sMutStateIndex = 0"

definition dMutStateIndex :: MutStateIndex where
  "dMutStateIndex = 1"

definition tMutStateIndex :: "Pos \<Rightarrow> MutStateIndex" where
  "tMutStateIndex dupIdx = 2 + dupIdx"

definition tMutStateDupIdx :: "MutStateIndex \<Rightarrow> Pos" where
  "tMutStateDupIdx mutStateIndex = mutStateIndex - 2"

definition isTMutStateIndex :: "ViterbiMatrix \<Rightarrow> MutStateIndex \<Rightarrow> bool" where
  "isTMutStateIndex V mutStateIndex \<longleftrightarrow>
     mutStateIndex \<ge> tMutStateIndex 0 \<and> mutStateIndex \<le> tMutStateIndex (maxDupLen V - 1)"

definition cellIndex :: "ViterbiMatrix \<Rightarrow> size_t \<Rightarrow> Pos \<Rightarrow> MutStateIndex \<Rightarrow> size_t" where
  "cellIndex V state pos mutState = (maxDupLen V + 2) * (pos * nStates V + state) + mutState"

definition sCellIndex :: "ViterbiMatrix \<Rightarrow> size_t \<Rightarrow> Pos \<Rightarrow> size_t" where
  "sCellIndex V state pos = cellIndex V state pos sMutStateIndex"

definition dCellIndex :: "ViterbiMatrix \<Rightarrow> size_t \<Rightarrow> Pos \<Rightarrow> size_t" where
  "dCellIndex V state pos = cellIndex V state pos dMutStateIndex"

definition tCellIndex :: "ViterbiMatrix \<Rightarrow> size_t \<Rightarrow> Pos \<Rightarrow> Pos \<Rightarrow> size_t" where
  "tCellIndex V state pos dupIdx = cellIndex V state pos (tMutStateIndex dupIdx)"

text \<open>\<^verbatim>\<open>leftContext.size()\<close>, a \<^verbatim>\<open>size_t\<close>.\<close>

definition leftContextSize :: "'b StateScores \<Rightarrow> size_t" where
  "leftContextSize ss = of_nat (length (leftContext ss))"

definition maxDupLenAt :: "ViterbiMatrix \<Rightarrow> 'b StateScores \<Rightarrow> Pos" where
  "maxDupLenAt V ss = min (maxDupLen V) (leftContextSize ss)"

text \<open>
  \<^verbatim>\<open>tanDupBase\<close> reads \<^verbatim>\<open>leftContext[size - 1 - dupIdx]\<close>; the index is computed in
  \<^verbatim>\<open>size_t\<close>, and \<open>None\<close> stands for a read past the end of the vector.
\<close>

definition tanDupBase :: "'b StateScores \<Rightarrow> Pos \<Rightarrow> 'b option" where
  "tanDupBase ss dupIdx =
     (let i = unat (leftContextSize ss - 1 - dupIdx)
      in if i < length (leftContext ss) then Some (leftContext ss ! i) else None)"

text \<open>
  The triples the lattice has a cell for: \<open>state\<close> in \<open>[0, nStates)\<close>, \<open>pos\<close> in
  \<open>[0, seqLen]\<close>, \<open>mutState\<close> in \<open>[0, maxDupLen + 2)\<close>.
\<close>

definition validCell :: "ViterbiMatrix \<Rightarrow> size_t \<times> Pos \<times> MutStateIndex \<Rightarrow> bool" where
  "validCell V = (\<lambda>(state, pos, mutState).
     state < nStates V \<and> pos \<le> seqLen V \<and> unat mutState < unat (maxDupLen V) + 2)"

text \<open>
  The number of cells \<open>(maxDupLen + 2) * nStates * (seqLen + 1)\<close>, computed without
  wrap-around; the flat array exists only when this number is a \<^verbatim>\<open>size_t\<close>.
\<close>

definition latticeSize :: "ViterbiMatrix \<Rightarrow> nat" where
  "latticeSize V = (unat (maxDupLen V) + 2) * unat (nStates V) * (unat (seqLen V) + 1)"

definition sampleMatrix :: ViterbiMatrix where
  "sampleMatrix = \<lparr>maxDupLen = 2, nStates = 3, seqLen = 4\<rparr>"

definition sampleScores :: "char StateScores" where
  "sampleScores = \<lparr>leftContext = ''ACG''\<rparr>"

section \<open>The transducer, as decoder.h reads it\<close>

text \<open>
  \<^verbatim>\<open>Machine\<close>, \<^verbatim>\<open>MachineState\<close> and \<^verbatim>\<open>MachineTransition\<close> are declared in
  \<^verbatim>\<open>trans.h\<close>. The decoder reads the fields \<^verbatim>\<open>in\<close>, \<^verbatim>\<open>out\<close> and \<^verbatim>\<open>dest\<close> of a
  transition, the fields \<^verbatim>\<open>name\<close> and \<^verbatim>\<open>trans\<close> of a state, the vector
  \<^verbatim>\<open>machine.state\<close> and \<^verbatim>\<open>machine.startState()\<close>. The observations
  \<^verbatim>\<open>isEnd()\<close>, \<^verbatim>\<open>emitsOutput()\<close> and \<^verbatim>\<open>exitsWithInput()\<close> of a state are computed in code
  that is not among the sources: they are data of the state here, so that the results hold
  for whatever they compute. A \<^verbatim>\<open>State\<close> is an index into \<^verbatim>\<open>machine.state\<close>.
\<close>

record MachineTransition =
  inp :: InputSymbol
  outp :: OutputSymbol
  dest :: State

record MachineState =
  name :: string
  trans_list :: "MachineTransition list"
  isEnd :: bool
  emitsOutput :: bool
  exitsWithInput :: bool

record Machine =
  state :: "MachineState list"
  startState :: State

text \<open>
  Modelled from the spec: \<^verbatim>\<open>MachineTransition::inputEmpty\<close> is defined outside the
  sources; a transition carries an input symbol or the null symbol, and
  \<^verbatim>\<open>inputEmpty\<close> says that it carries the null symbol.
\<close>

definition inputEmpty :: "Symbols \<Rightarrow> MachineTransition \<Rightarrow> bool" where
  "inputEmpty sy t \<longleftrightarrow> inp t = MachineNull sy"

text \<open>
  Modelled from the spec: \<^verbatim>\<open>MachineTransition::outputEmpty\<close> is defined outside the
  sources; a transition carries an output symbol or the null symbol, and a transition with
  null output is a null transition.
\<close>

definition outputEmpty :: "Symbols \<Rightarrow> MachineTransition \<Rightarrow> bool" where
  "outputEmpty sy t \<longleftrightarrow> outp t = MachineNull sy"

section \<open>Decoder (decoder.h, lines 7-191)\<close>

text \<open>
  \<^verbatim>\<open>StateString\<close> is a \<^verbatim>\<open>map<State, deque<InputSymbol>>\<close>: a list of pairs with
  increasing keys, visited in that order. \<open>ss_assign\<close> is \<^verbatim>\<open>m[k] = v\<close>, \<open>ss_insert\<close> is
  \<^verbatim>\<open>m.insert\<close> of a pair (which leaves an existing entry alone), \<open>map_of m k\<close> reads
  \<^verbatim>\<open>m.count(k)\<close> and \<^verbatim>\<open>m.at(k)\<close>.
\<close>

type_synonym Queue = "InputSymbol list"
type_synonym StateString = "(State \<times> Queue) list"

fun ss_assign :: "State \<Rightarrow> Queue \<Rightarrow> StateString \<Rightarrow> StateString" where
  "ss_assign k v [] = [(k, v)]"
| "ss_assign k v ((k', v') # m) =
     (if k < k' then (k, v) # (k', v') # m
      else if k = k' then (k, v) # m
      else (k', v') # ss_assign k v m)"

definition ss_insert :: "State \<Rightarrow> Queue \<Rightarrow> StateString \<Rightarrow> StateString" where
  "ss_insert k v m = (case map_of m k of None \<Rightarrow> ss_assign k v m | Some _ \<Rightarrow> m)"

text \<open>
  The fatal errors: the two \<^verbatim>\<open>Assert\<close> failures of the decoder, and a read of
  \<^verbatim>\<open>machine.state\<close> past its end (undefined in the source).
\<close>

datatype error =
  QueueConflict State Queue Queue
  | CannotDecode OutputSymbol
  | BadState State

text \<open>The lines that \<^verbatim>\<open>close\<close> sends to \<^verbatim>\<open>Warn\<close>.\<close>

datatype warning =
  UnresolvedEndStates nat
  | UnresolvedStates nat
  | StateQueue State Queue

text \<open>
  \<open>outs\<close> is the sequence of characters passed to \<^verbatim>\<open>outs.write\<close> so far, \<open>warnings\<close>
  the warnings issued so far. The machine is a constant reference and is passed along.
\<close>

record Decoder =
  current :: StateString
  outs :: "char list"
  warnings :: "warning list"

definition stateAt :: "Machine \<Rightarrow> State \<Rightarrow> error + MachineState" where
  "stateAt m s = (if s < length (state m) then Inr (state m ! s) else Inl (BadState s))"

definition isUsable :: "Symbols \<Rightarrow> MachineTransition \<Rightarrow> bool" where
  "isUsable sy t \<longleftrightarrow>
     inp t = MachineNull sy
     \<or> inp t = MachineBit0 sy \<or> inp t = MachineBit1 sy
     \<or> inp t = MachineEOF sy \<or> inp t = MachineSOF sy
     \<or> isControl sy (inp t)"

text \<open>\<^verbatim>\<open>nextStr = str; if (!t.inputEmpty()) nextStr.push_back (t.in)\<close>.\<close>

definition nextStr :: "Symbols \<Rightarrow> Queue \<Rightarrow> MachineTransition \<Rightarrow> Queue" where
  "nextStr sy str t = (if \<not> inputEmpty sy t then str @ [inp t] else str)"

subsection \<open>expand\<close>

text \<open>The first loop of a pass: record every hypothesis in \<open>seen\<close>, keep the ones whose
  state is an end state or emits output.\<close>

fun expand_keep ::
  "Machine \<Rightarrow> StateString \<Rightarrow> StateString \<times> StateString \<Rightarrow> error + (StateString \<times> StateString)"
where
  "expand_keep m [] (next, seen) = Inr (next, seen)"
| "expand_keep m ((st, str) # rest) (next, seen) =
     (case stateAt m st of
        Inl e \<Rightarrow> Inl e
      | Inr ms \<Rightarrow>
          expand_keep m rest
            (if isEnd ms \<or> emitsOutput ms then ss_assign st str next else next,
             ss_insert st str seen))"

text \<open>The inner loop of the second loop, over the transitions of one state.\<close>

fun expand_trans ::
  "Symbols \<Rightarrow> StateString \<Rightarrow> Queue \<Rightarrow> MachineTransition list \<Rightarrow> StateString \<times> bool
     \<Rightarrow> error + (StateString \<times> bool)"
where
  "expand_trans sy seen str [] (next, foundNew) = Inr (next, foundNew)"
| "expand_trans sy seen str (t # ts) (next, foundNew) =
     (if isUsable sy t \<and> outputEmpty sy t then
        (case map_of seen (dest t) of
           Some q \<Rightarrow>
             if q = nextStr sy str t then expand_trans sy seen str ts (next, foundNew)
             else Inl (QueueConflict (dest t) q (nextStr sy str t))
         | None \<Rightarrow>
             expand_trans sy seen str ts (ss_assign (dest t) (nextStr sy str t) next, True))
      else expand_trans sy seen str ts (next, foundNew))"

text \<open>The second loop of a pass, over the hypotheses.\<close>

fun expand_step ::
  "Symbols \<Rightarrow> Machine \<Rightarrow> StateString \<Rightarrow> StateString \<Rightarrow> StateString \<times> bool
     \<Rightarrow> error + (StateString \<times> bool)"
where
  "expand_step sy m seen [] acc = Inr acc"
| "expand_step sy m seen ((st, str) # rest) acc =
     (case stateAt m st of
        Inl e \<Rightarrow> Inl e
      | Inr ms \<Rightarrow>
          (case expand_trans sy seen str (trans_list ms) acc of
             Inl e \<Rightarrow> Inl e
           | Inr acc' \<Rightarrow> expand_step sy m seen rest acc'))"

text \<open>One pass of the \<^verbatim>\<open>do\<close> loop: the new \<open>current\<close>, the new \<open>seen\<close> and
  \<open>foundNew\<close>.\<close>

definition expand_pass ::
  "Symbols \<Rightarrow> Machine \<Rightarrow> StateString \<Rightarrow> StateString
     \<Rightarrow> error + (StateString \<times> StateString \<times> bool)"
where
  "expand_pass sy m cur seen =
     (case expand_keep m cur ([], seen) of
        Inl e \<Rightarrow> Inl e
      | Inr (next, seen') \<Rightarrow>
          (case expand_step sy m seen' cur (next, False) of
             Inl e \<Rightarrow> Inl e
           | Inr (next', foundNew) \<Rightarrow> Inr (next', seen', foundNew)))"

text \<open>The \<^verbatim>\<open>do ... while (foundNew)\<close> loop; \<open>None\<close> is a loop that never ends.\<close>

partial_function (option) expand_loop ::
  "Symbols \<Rightarrow> Machine \<Rightarrow> StateString \<Rightarrow> StateString \<Rightarrow> (error + StateString) option"
where [code]:
  "expand_loop sy m cur seen =
     (case expand_pass sy m cur seen of
        Inl e \<Rightarrow> Some (Inl e)
      | Inr (next, seen', foundNew) \<Rightarrow>
          if foundNew then expand_loop sy m next seen' else Some (Inr next))"

definition expand :: "Symbols \<Rightarrow> Machine \<Rightarrow> Decoder \<Rightarrow> (error + Decoder) option" where
  "expand sy m d =
     (case expand_loop sy m (current d) [] of
        None \<Rightarrow> None
      | Some (Inl e) \<Rightarrow> Some (Inl e)
      | Some (Inr cur) \<Rightarrow> Some (Inr (d\<lparr>current := cur\<rparr>)))"

text \<open>The same loop cut off after \<open>n\<close> passes, to count them.\<close>

fun expand_passes ::
  "nat \<Rightarrow> Symbols \<Rightarrow> Machine \<Rightarrow> StateString \<Rightarrow> StateString \<Rightarrow> (error + StateString) option"
where
  "expand_passes 0 sy m cur seen = None"
| "expand_passes (Suc n) sy m cur seen =
     (case expand_pass sy m cur seen of
        Inl e \<Rightarrow> Some (Inl e)
      | Inr (next, seen', foundNew) \<Rightarrow>
          if foundNew then expand_passes n sy m next seen' else Some (Inr next))"

subsection \<open>The constructor, write and flush\<close>

definition Decoder_init :: "Symbols \<Rightarrow> Machine \<Rightarrow> (error + Decoder) option" where
  "Decoder_init sy m = expand sy m \<lparr>current = [(startState m, [])], outs = [], warnings = []\<rparr>"

definition dec_write :: "Decoder \<Rightarrow> char list \<Rightarrow> Decoder" where
  "dec_write d s = d\<lparr>outs := outs d @ s\<rparr>"

text \<open>\<^verbatim>\<open>flush (ss)\<close>, for the iterator at the entry of state \<open>st\<close> with queue \<open>str\<close>.\<close>

definition flush :: "Decoder \<Rightarrow> State \<times> Queue \<Rightarrow> Decoder" where
  "flush d = (\<lambda>(st, str).
     if length str \<noteq> 0 then (dec_write d str)\<lparr>current := ss_assign st [] (current d)\<rparr>
     else d)"

subsection \<open>shiftResolvedSymbols\<close>

text \<open>
  The \<^verbatim>\<open>for\<close> loop over \<open>current\<close>, with its flags
  \<open>(foundQueue, queueNonempty, firstCharSame, firstChar)\<close>; the second equation's second
  branch is the \<^verbatim>\<open>break\<close>. \<^verbatim>\<open>ss.second[0]\<close> is read only for a non-empty queue.
\<close>

fun scanQueues :: "StateString \<Rightarrow> bool \<times> bool \<times> bool \<times> InputSymbol \<Rightarrow> bool \<times> bool \<times> bool \<times> InputSymbol"
where
  "scanQueues [] fl = fl"
| "scanQueues ((st, str) # rest) (foundQueue, queueNonempty, firstCharSame, firstChar) =
     (if \<not> foundQueue then
        scanQueues rest (True, str \<noteq> [], True, if str \<noteq> [] then hd str else firstChar)
      else if queueNonempty \<and> (str = [] \<or> firstChar \<noteq> hd str) then
        (foundQueue, queueNonempty, False, firstChar)
      else scanQueues rest (foundQueue, queueNonempty, firstCharSame, firstChar))"

text \<open>
  The flags before the loop: \<open>foundQueue\<close> is false, the other three are not initialised
  by the source and are not read before they are assigned.
\<close>

definition scanStart :: "bool \<times> bool \<times> bool \<times> InputSymbol" where
  "scanStart = (False, False, False, CHR 0x00)"

text \<open>\<^verbatim>\<open>ss.second.erase (ss.second.begin())\<close> for every entry.\<close>

definition popAll :: "StateString \<Rightarrow> StateString" where
  "popAll cur = map (\<lambda>(st, str). (st, tl str)) cur"

function shiftResolvedSymbols :: "Decoder \<Rightarrow> Decoder" where
  "shiftResolvedSymbols d =
     (case scanQueues (current d) scanStart of
        (foundQueue, queueNonempty, firstCharSame, firstChar) \<Rightarrow>
          if foundQueue \<and> queueNonempty \<and> firstCharSame then
            shiftResolvedSymbols ((dec_write d [firstChar])\<lparr>current := popAll (current d)\<rparr>)
          else d)"
  by pat_completeness auto
termination
proof (relation "measure (\<lambda>d. length (concat (map snd (current d))))")
  show "wf (measure (\<lambda>d. length (concat (map snd (current d)))))" by simp
next
  fix d :: Decoder and x xa y xb ya xc yb
  assume a: "(x, y) = scanQueues (current d) scanStart" "(xa, ya) = y" "(xb, yb) = ya"
    "x \<and> xa \<and> xb"
  have keep: "fst (scanQueues cur (True, qn, fs, fc)) \<and> fst (snd (scanQueues cur (True, qn, fs, fc))) = qn"
    for cur qn fs fc
    by (induction cur arbitrary: fs) (auto split: if_splits)
  have first: "fst (snd (scanQueues cur scanStart)) \<Longrightarrow> cur \<noteq> [] \<and> snd (hd cur) \<noteq> []" for cur
  proof (cases cur)
    case Nil
    then show "fst (snd (scanQueues cur scanStart)) \<Longrightarrow> ?thesis" by (simp add: scanStart_def)
  next
    case (Cons p rest)
    obtain s q where p: "p = (s, q)" by (cases p)
    assume "fst (snd (scanQueues cur scanStart))"
    then show ?thesis using keep [of rest "q \<noteq> []" True "if q \<noteq> [] then hd q else CHR 0x00"]
      by (simp add: Cons p scanStart_def)
  qed
  have "fst (snd (scanQueues (current d) scanStart))" using a by (metis fst_conv snd_conv)
  from first [OF this] obtain s q rest where c: "current d = (s, q) # rest" and q: "q \<noteq> []"
    by (cases "current d") auto
  have le: "length (concat (map snd (popAll cur))) \<le> length (concat (map snd cur))" for cur
    by (induction cur) (auto simp add: popAll_def)
  have lq: "length (tl q) < length q" using q by (cases q) simp_all
  have "popAll (current d) = (s, tl q) # popAll rest" by (simp add: c popAll_def)
  then have "length (concat (map snd (popAll (current d))))
      = length (tl q) + length (concat (map snd (popAll rest)))" by simp
  moreover have "length (concat (map snd (current d))) = length q + length (concat (map snd rest))"
    by (simp add: c)
  ultimately have "length (concat (map snd (popAll (current d)))) < length (concat (map snd (current d)))"
    using lq le [of rest] by linarith
  then show "((dec_write d [xc])\<lparr>current := popAll (current d)\<rparr>, d)
      \<in> measure (\<lambda>d. length (concat (map snd (current d))))"
    by (simp add: dec_write_def)
qed

declare shiftResolvedSymbols.simps [simp del]

subsection \<open>decodeSymbol\<close>

text \<open>The inner loop of \<^verbatim>\<open>decodeSymbol\<close>, over the transitions of one state.\<close>

fun decode_trans ::
  "Symbols \<Rightarrow> OutputSymbol \<Rightarrow> Queue \<Rightarrow> MachineTransition list \<Rightarrow> StateString
     \<Rightarrow> error + StateString"
where
  "decode_trans sy outSym str [] next = Inr next"
| "decode_trans sy outSym str (t # ts) next =
     (if isUsable sy t \<and> outp t = outSym then
        (case map_of next (dest t) of
           Some q \<Rightarrow>
             if q = nextStr sy str t
             then decode_trans sy outSym str ts (ss_assign (dest t) (nextStr sy str t) next)
             else Inl (QueueConflict (dest t) q (nextStr sy str t))
         | None \<Rightarrow>
             decode_trans sy outSym str ts (ss_assign (dest t) (nextStr sy str t) next))
      else decode_trans sy outSym str ts next)"

text \<open>The outer loop, over the hypotheses.\<close>

fun decode_step ::
  "Symbols \<Rightarrow> Machine \<Rightarrow> OutputSymbol \<Rightarrow> StateString \<Rightarrow> StateString \<Rightarrow> error + StateString"
where
  "decode_step sy m outSym [] next = Inr next"
| "decode_step sy m outSym ((st, str) # rest) next =
     (case stateAt m st of
        Inl e \<Rightarrow> Inl e
      | Inr ms \<Rightarrow>
          (case decode_trans sy outSym str (trans_list ms) next of
             Inl e \<Rightarrow> Inl e
           | Inr next' \<Rightarrow> decode_step sy m outSym rest next'))"

text \<open>
  The end of \<^verbatim>\<open>decodeSymbol\<close> (lines 152-158): with exactly one hypothesis, flush it if
  its state exits with input; with any other number of hypotheses, shift.
\<close>

definition resolve :: "Machine \<Rightarrow> Decoder \<Rightarrow> error + Decoder" where
  "resolve m d =
     (case current d of
        [(st, str)] \<Rightarrow>
          (case stateAt m st of
             Inl e \<Rightarrow> Inl e
           | Inr ms \<Rightarrow> Inr (if exitsWithInput ms then flush d (st, str) else d))
      | _ \<Rightarrow> Inr (shiftResolvedSymbols d))"

definition decodeSymbol ::
  "Symbols \<Rightarrow> Machine \<Rightarrow> Decoder \<Rightarrow> OutputSymbol \<Rightarrow> (error + Decoder) option"
where
  "decodeSymbol sy m d outSym =
     (case decode_step sy m outSym (current d) [] of
        Inl e \<Rightarrow> Some (Inl e)
      | Inr next \<Rightarrow>
          if next = [] then Some (Inl (CannotDecode outSym))
          else
            (case expand sy m (d\<lparr>current := next\<rparr>) of
               None \<Rightarrow> None
             | Some (Inl e) \<Rightarrow> Some (Inl e)
             | Some (Inr d1) \<Rightarrow> Some (resolve m d1)))"

subsection \<open>close\<close>

text \<open>The loop that collects in \<^verbatim>\<open>ssIter\<close> the hypotheses whose state is an end state.\<close>

fun collectEnds :: "Machine \<Rightarrow> StateString \<Rightarrow> StateString \<Rightarrow> error + StateString" where
  "collectEnds m [] ssIter = Inr ssIter"
| "collectEnds m ((st, str) # rest) ssIter =
     (case stateAt m st of
        Inl e \<Rightarrow> Inl e
      | Inr ms \<Rightarrow> collectEnds m rest (if isEnd ms then ssIter @ [(st, str)] else ssIter))"

definition showQueue :: "Decoder \<Rightarrow> Decoder" where
  "showQueue d = d\<lparr>warnings := warnings d @ map (\<lambda>(st, str). StateQueue st str) (current d)\<rparr>"

definition close :: "Symbols \<Rightarrow> Machine \<Rightarrow> Decoder \<Rightarrow> (error + Decoder) option" where
  "close sy m d =
     (if length (current d) \<noteq> 0 then
        (case expand sy m d of
           None \<Rightarrow> None
         | Some (Inl e) \<Rightarrow> Some (Inl e)
         | Some (Inr d1) \<Rightarrow>
             (case collectEnds m (current d1) [] of
                Inl e \<Rightarrow> Some (Inl e)
              | Inr ssIter \<Rightarrow>
                  Some (Inr
                    ((if length ssIter = 1 then flush d1 (hd ssIter)
                      else if length ssIter > 1 then
                        d1\<lparr>warnings := warnings d1 @ UnresolvedEndStates (length ssIter)
                                # map (\<lambda>(st, str). StateQueue st str) ssIter\<rparr>
                      else if length (current d1) > 1 then
                        showQueue
                          (d1\<lparr>warnings := warnings d1 @ [UnresolvedStates (length (current d1))]\<rparr>)
                      else d1)
                     \<lparr>current := []\<rparr>))))
      else Some (Inr d))"

subsection \<open>Notions used to state the properties\<close>

text \<open>The states that have an entry in a \<^verbatim>\<open>StateString\<close>.\<close>

definition ss_keys :: "StateString \<Rightarrow> State set" where
  "ss_keys m = fst ` set m"

text \<open>Every hypothesis names a state of the machine, and every transition leads to one.\<close>

definition statesOk :: "Machine \<Rightarrow> StateString \<Rightarrow> bool" where
  "statesOk m cur \<longleftrightarrow> list_all (\<lambda>(st, str). st < length (state m)) cur"

definition wellFormed :: "Machine \<Rightarrow> bool" where
  "wellFormed m \<longleftrightarrow>
     startState m < length (state m) \<and>
     list_all (\<lambda>ms. list_all (\<lambda>t. dest t < length (state m)) (trans_list ms)) (state m)"

text \<open>The hypotheses whose state is an end state.\<close>

definition endHypotheses :: "Machine \<Rightarrow> StateString \<Rightarrow> StateString" where
  "endHypotheses m cur = filter (\<lambda>(st, str). isEnd (state m ! st)) cur"

text \<open>
  The usable transitions with output \<open>outSym\<close> out of the hypotheses of \<open>cur\<close>, with the
  hypothesis each starts from.
\<close>

definition matching ::
  "Symbols \<Rightarrow> Machine \<Rightarrow> StateString \<Rightarrow> OutputSymbol \<Rightarrow> ((State \<times> Queue) \<times> MachineTransition) list"
where
  "matching sy m cur outSym =
     concat (map (\<lambda>(st, str).
        map (\<lambda>t. ((st, str), t))
          (filter (\<lambda>t. isUsable sy t \<and> outp t = outSym) (trans_list (state m ! st)))) cur)"

text \<open>
  The null-output transitions between states that do not emit output, and the machines
  for which this graph has no cycle.
\<close>

definition nullEdges :: "Symbols \<Rightarrow> Machine \<Rightarrow> (State \<times> State) list" where
  "nullEdges sy m =
     concat (map (\<lambda>s.
        map (\<lambda>t. (s, dest t))
          (filter (\<lambda>t. outputEmpty sy t \<and> dest t < length (state m)
                        \<and> \<not> emitsOutput (state m ! dest t))
             (trans_list (state m ! s))))
       (filter (\<lambda>s. \<not> emitsOutput (state m ! s)) [0..<length (state m)]))"

definition nullAcyclic :: "Symbols \<Rightarrow> Machine \<Rightarrow> bool" where
  "nullAcyclic sy m \<longleftrightarrow> acyclic (set (nullEdges sy m))"

text \<open>
  The committal rule of the code: \<open>c\<close> is the front of every queue of a non-empty
  hypothesis set (so no queue is empty).
\<close>

definition frontOfAll :: "InputSymbol \<Rightarrow> StateString \<Rightarrow> bool" where
  "frontOfAll c cur \<longleftrightarrow> cur \<noteq> [] \<and> list_all (\<lambda>(st, str). str \<noteq> [] \<and> hd str = c) cur"

text \<open>
  The committal rule in the words of the specification: \<open>c\<close> is the front of every
  non-empty queue, and at least one queue is non-empty.
\<close>

definition frontOfNonempty :: "InputSymbol \<Rightarrow> StateString \<Rightarrow> bool" where
  "frontOfNonempty c cur \<longleftrightarrow>
     list_all (\<lambda>(st, str). str = [] \<or> hd str = c) cur \<and> list_ex (\<lambda>(st, str). str \<noteq> []) cur"

subsection \<open>Sample machines\<close>

text \<open>
  State 0 has two null-output transitions to the end state 1, one reading bit 0 and one
  reading bit 1.
\<close>

definition machineFork :: Machine where
  "machineFork =
     \<lparr>state =
        [\<lparr>name = ''A'',
          trans_list = [\<lparr>inp = CHR ''0'', outp = CHR 0x00, dest = 1\<rparr>,
                        \<lparr>inp = CHR ''1'', outp = CHR 0x00, dest = 1\<rparr>],
          isEnd = False, emitsOutput = False, exitsWithInput = True\<rparr>,
         \<lparr>name = ''B'',
          trans_list = [\<lparr>inp = CHR ''0'', outp = CHR ''A'', dest = 1\<rparr>],
          isEnd = True, emitsOutput = True, exitsWithInput = True\<rparr>],
      startState = 0\<rparr>"

text \<open>
  State 0 emits \<open>A\<close> on bit 1 and goes to state 1, which emits \<open>C\<close> without reading input
  and goes to the end state 2.
\<close>

definition machineHold :: Machine where
  "machineHold =
     \<lparr>state =
        [\<lparr>name = ''A'',
          trans_list = [\<lparr>inp = CHR ''1'', outp = CHR ''A'', dest = 1\<rparr>],
          isEnd = False, emitsOutput = True, exitsWithInput = True\<rparr>,
         \<lparr>name = ''B'',
          trans_list = [\<lparr>inp = CHR 0x00, outp = CHR ''C'', dest = 2\<rparr>],
          isEnd = False, emitsOutput = True, exitsWithInput = False\<rparr>,
         \<lparr>name = ''C'',
          trans_list = [\<lparr>inp = CHR ''0'', outp = CHR ''G'', dest = 2\<rparr>],
          isEnd = True, emitsOutput = True, exitsWithInput = True\<rparr>],
      startState = 0\<rparr>"

text \<open>State 0 emits \<open>A\<close> on bit 0 and on bit 1, both times going to the end state 1.\<close>

definition machineClash :: Machine where
  "machineClash =
     \<lparr>state =
        [\<lparr>name = ''A'',
          trans_list = [\<lparr>inp = CHR ''0'', outp = CHR ''A'', dest = 1\<rparr>,
                        \<lparr>inp = CHR ''1'', outp = CHR ''A'', dest = 1\<rparr>],
          isEnd = False, emitsOutput = True, exitsWithInput = True\<rparr>,
         \<lparr>name = ''B'',
          trans_list = [\<lparr>inp = CHR ''0'', outp = CHR ''A'', dest = 1\<rparr>],
          isEnd = True, emitsOutput = True, exitsWithInput = True\<rparr>],
      startState = 0\<rparr>"

text \<open>
  A chain of null-output transitions \<open>0 \<rightarrow> 1 \<rightarrow> 2\<close> reading bit 0 and bit 1, and the
  emitting end state 2.
\<close>

definition machineChain :: Machine where
  "machineChain =
     \<lparr>state =
        [\<lparr>name = ''A'',
          trans_list = [\<lparr>inp = CHR ''0'', outp = CHR 0x00, dest = 1\<rparr>],
          isEnd = False, emitsOutput = False, exitsWithInput = True\<rparr>,
         \<lparr>name = ''B'',
          trans_list = [\<lparr>inp = CHR ''1'', outp = CHR 0x00, dest = 2\<rparr>],
          isEnd = False, emitsOutput = False, exitsWithInput = True\<rparr>,
         \<lparr>name = ''C'',
          trans_list = [\<lparr>inp = CHR ''0'', outp = CHR ''G'', dest = 2\<rparr>],
          isEnd = True, emitsOutput = True, exitsWithInput = True\<rparr>],
      startState = 0\<rparr>"

section \<open>Properties of the BinaryWriter\<close>

lemma shiftCount_Some: "n \<le> 7 \<Longrightarrow> shiftCount msb n = Some (if msb then 7 - n else n)"
  by (simp add: shiftCount_def)

lemma bit_or_push_1:
  "k \<le> 7 \<Longrightarrow> bit (c OR 2 ^ k :: byte) j \<longleftrightarrow> bit c j \<or> j = k"
  by (auto simp add: bit_or_iff bit_exp_iff possible_bit_word)

lemma flush_loop_bits:
  "n + length bs \<le> 8 \<Longrightarrow>
   \<exists>c'. flush_loop msb bs n c = Some c' \<and>
     (\<forall>k. bit c' k \<longleftrightarrow> bit c k \<or> (\<exists>i<length bs. bs ! i \<and> k = (if msb then 7 - (n + i) else n + i)))"
proof (induction bs arbitrary: n c)
  case Nil
  then show ?case by simp
next
  case (Cons b bs)
  then have n7: "n \<le> 7" and le: "Suc n + length bs \<le> 8" by simp_all
  define p where "p = (if msb then 7 - n else n)"
  have p7: "p \<le> 7" using n7 by (simp add: p_def)
  define c1 where "c1 = (if b then c OR push_bit p 1 else c)"
  from Cons.IH [OF le, of c1] obtain c' where
    1: "flush_loop msb bs (Suc n) c1 = Some c'" and
    2: "\<And>k. bit c' k \<longleftrightarrow> bit c1 k \<or> (\<exists>i<length bs. bs ! i \<and> k = (if msb then 7 - (Suc n + i) else Suc n + i))"
    by blast
  have 3: "bit c1 k \<longleftrightarrow> bit c k \<or> (b \<and> k = p)" for k
    by (simp add: c1_def bit_or_push_1 [OF p7])
  have "flush_loop msb (b # bs) n c = Some c'"
    using 1 n7 by (cases b; cases msb; simp add: shiftCount_Some c1_def p_def)
  moreover have "bit c' k \<longleftrightarrow> bit c k \<or> (\<exists>i<length (b # bs). (b # bs) ! i \<and> k = (if msb then 7 - (n + i) else n + i))" for k
    unfolding 2 3 by (simp add: Ex_less_Suc2 p_def disj_assoc)
  ultimately show ?case by blast
qed

lemma bw_flush_full:
  "length (outbuf w) \<le> 8 \<Longrightarrow>
   \<exists>c. bw_flush w = Some (w\<lparr>bw_outs := bw_outs w @ [c], outbuf := []\<rparr>) \<and>
     (\<forall>k. bit c k \<longleftrightarrow> (\<exists>i<length (outbuf w). outbuf w ! i \<and> k = (if msb0 w then 7 - i else i)))"
proof -
  assume "length (outbuf w) \<le> 8"
  then have "0 + length (outbuf w) \<le> 8" by simp
  from flush_loop_bits [OF this, of "msb0 w" 0] obtain c where
    1: "flush_loop (msb0 w) (outbuf w) 0 0 = Some c" and
    2: "\<And>k. bit c k \<longleftrightarrow> bit (0::byte) k \<or> (\<exists>i<length (outbuf w). outbuf w ! i \<and> k = (if msb0 w then 7 - (0 + i) else 0 + i))"
    by blast
  have "bw_flush w = Some (w\<lparr>bw_outs := bw_outs w @ [c], outbuf := []\<rparr>)"
    by (simp add: bw_flush_def 1)
  moreover have "bit c k \<longleftrightarrow> (\<exists>i<length (outbuf w). outbuf w ! i \<and> k = (if msb0 w then 7 - i else i))" for k
    unfolding 2 by simp
  ultimately show ?thesis by blast
qed

lemma bw_write_counts:
  "length (outbuf w) \<le> 7 \<Longrightarrow>
   \<exists>w'. bw_write sy w buf = Some w' \<and> msb0 w' = msb0 w \<and>
     length (outbuf w') = (length (outbuf w) + length (bitChars sy buf)) mod 8 \<and>
     length (bw_outs w') = length (bw_outs w) + (length (outbuf w) + length (bitChars sy buf)) div 8"
proof (induction buf arbitrary: w)
  case Nil
  then show ?case by (simp add: bitChars_def)
next
  case (Cons c cs)
  show ?case
  proof (cases "c = MachineBit0 sy \<or> c = MachineBit1 sy")
    case False
    with Cons.IH [OF Cons.prems] show ?thesis by (simp add: bitChars_def)
  next
    case True
    define w1 where "w1 = w\<lparr>outbuf := outbuf w @ [c = MachineBit1 sy]\<rparr>"
    have len1: "length (outbuf w1) = Suc (length (outbuf w))" by (simp add: w1_def)
    have bc: "length (bitChars sy (c # cs)) = Suc (length (bitChars sy cs))"
      using True by (simp add: bitChars_def)
    show ?thesis
    proof (cases "length (outbuf w1) = 8")
      case full: True
      then have "length (outbuf w1) \<le> 8" by simp
      from bw_flush_full [OF this] obtain b where
        fl: "bw_flush w1 = Some (w1\<lparr>bw_outs := bw_outs w1 @ [b], outbuf := []\<rparr>)" by blast
      define w2 where "w2 = w1\<lparr>bw_outs := bw_outs w1 @ [b], outbuf := []\<rparr>"
      have "length (outbuf w2) \<le> 7" by (simp add: w2_def)
      from Cons.IH [OF this] obtain w' where
        r: "bw_write sy w2 cs = Some w'" "msb0 w' = msb0 w2"
           "length (outbuf w') = (length (outbuf w2) + length (bitChars sy cs)) mod 8"
           "length (bw_outs w') = length (bw_outs w2) + (length (outbuf w2) + length (bitChars sy cs)) div 8"
        by blast
      have "bw_write sy w (c # cs) = Some w'"
        using True full fl r(1) by (simp add: w1_def w2_def Let_def)
      moreover have "msb0 w' = msb0 w" using r(2) by (simp add: w2_def w1_def)
      moreover have "length (outbuf w') = (length (outbuf w) + length (bitChars sy (c # cs))) mod 8"
        using r(3) full len1 by (simp add: bc w2_def)
      moreover have "length (bw_outs w') = length (bw_outs w) + (length (outbuf w) + length (bitChars sy (c # cs))) div 8"
        using r(4) full len1 by (simp add: bc w2_def w1_def)
      ultimately show ?thesis by blast
    next
      case part: False
      then have "length (outbuf w1) \<le> 7" using Cons.prems len1 by simp
      from Cons.IH [OF this] obtain w' where
        r: "bw_write sy w1 cs = Some w'" "msb0 w' = msb0 w1"
           "length (outbuf w') = (length (outbuf w1) + length (bitChars sy cs)) mod 8"
           "length (bw_outs w') = length (bw_outs w1) + (length (outbuf w1) + length (bitChars sy cs)) div 8"
        by blast
      have "bw_write sy w (c # cs) = Some w'"
        using True part r(1) by (simp add: w1_def Let_def)
      moreover have "msb0 w' = msb0 w" using r(2) by (simp add: w1_def)
      moreover have "length (outbuf w') = (length (outbuf w) + length (bitChars sy (c # cs))) mod 8"
        using r(3) len1 by (simp add: bc)
      moreover have "length (bw_outs w') = length (bw_outs w) + (length (outbuf w) + length (bitChars sy (c # cs))) div 8"
        using r(4) len1 by (simp add: bc w1_def)
      ultimately show ?thesis by blast
    qed
  qed
qed

lemma bw_write_append:
  "bw_write sy w (xs @ ys) =
     (case bw_write sy w xs of None \<Rightarrow> None | Some w' \<Rightarrow> bw_write sy w' ys)"
  by (induction xs arbitrary: w) (simp_all add: Let_def split: option.split)

lemma bw_write_partial:
  "MachineBit0 sy \<noteq> MachineBit1 sy \<Longrightarrow> length (outbuf w) + length bs < 8 \<Longrightarrow>
   bw_write sy w (bitString sy bs) = Some (w\<lparr>outbuf := outbuf w @ bs\<rparr>)"
proof (induction bs arbitrary: w)
  case Nil
  then show ?case by (simp add: bitString_def)
next
  case (Cons b bs)
  define w1 where "w1 = w\<lparr>outbuf := outbuf w @ [b]\<rparr>"
  have "length (outbuf w1) + length bs < 8" using Cons.prems(2) by (simp add: w1_def)
  from Cons.IH [OF Cons.prems(1) this]
  have "bw_write sy w1 (bitString sy bs) = Some (w1\<lparr>outbuf := outbuf w1 @ bs\<rparr>)" .
  moreover have "bw_write sy w (bitString sy (b # bs)) = bw_write sy w1 (bitString sy bs)"
    using Cons.prems by (cases b) (simp_all add: bitString_def w1_def Let_def)
  ultimately show ?case by (simp add: w1_def)
qed

lemma bw_write_group:
  assumes ne: "MachineBit0 sy \<noteq> MachineBit1 sy" and len: "length bs = 8"
  shows "\<exists>c. bw_write sy \<lparr>bw_outs = os, msb0 = m, outbuf = []\<rparr> (bitString sy bs)
            = Some \<lparr>bw_outs = os @ [c], msb0 = m, outbuf = []\<rparr> \<and>
          (\<forall>n<8. bit c (if m then 7 - n else n) = bs ! n)"
proof -
  define w0 where "w0 = \<lparr>bw_outs = os, msb0 = m, outbuf = []\<rparr>"
  define w7 where "w7 = w0\<lparr>outbuf := butlast bs\<rparr>"
  define w8 where "w8 = w0\<lparr>outbuf := bs\<rparr>"
  have bs: "bs = butlast bs @ [last bs]" using len by (cases bs rule: rev_cases) simp_all
  have "length (outbuf w0) + length (butlast bs) < 8" using len by (simp add: w0_def)
  from bw_write_partial [OF ne this]
  have p7: "bw_write sy w0 (bitString sy (butlast bs)) = Some w7"
    by (simp add: w7_def w0_def)
  have split: "bitString sy bs = bitString sy (butlast bs) @ bitString sy [last bs]"
    by (subst bs) (simp add: bitString_def)
  have "length (outbuf w8) \<le> 8" using len by (simp add: w8_def)
  from bw_flush_full [OF this] obtain c where
    fl: "bw_flush w8 = Some (w8\<lparr>bw_outs := bw_outs w8 @ [c], outbuf := []\<rparr>)" and
    bits: "\<And>k. bit c k \<longleftrightarrow> (\<exists>i<length (outbuf w8). outbuf w8 ! i \<and> k = (if msb0 w8 then 7 - i else i))"
    by blast
  have w78: "w7\<lparr>outbuf := outbuf w7 @ [last bs]\<rparr> = w8"
    using bs by (simp add: w7_def w8_def)
  have l7: "length (outbuf w7) = 7" using len by (simp add: w7_def)
  have "bw_write sy w7 (bitString sy [last bs]) = bw_flush (w7\<lparr>outbuf := outbuf w7 @ [last bs]\<rparr>)"
    using ne l7 by (cases "last bs") (simp_all add: bitString_def Let_def split: option.split)
  then have last: "bw_write sy w7 (bitString sy [last bs]) = Some \<lparr>bw_outs = os @ [c], msb0 = m, outbuf = []\<rparr>"
    unfolding w78 fl by (simp add: w8_def w0_def)
  have "bw_write sy w0 (bitString sy bs) = Some \<lparr>bw_outs = os @ [c], msb0 = m, outbuf = []\<rparr>"
    by (simp add: split bw_write_append p7 last)
  moreover have "bit c (if m then 7 - n else n) = bs ! n" if "n < 8" for n
  proof -
    have "(\<exists>i<8. bs ! i \<and> (if m then 7 - n else n) = (if m then 7 - i else i)) \<longleftrightarrow> bs ! n"
    proof
      assume "\<exists>i<8. bs ! i \<and> (if m then 7 - n else n) = (if m then 7 - i else i)"
      then obtain i where i: "i < 8" "bs ! i" "(if m then 7 - n else n) = (if m then 7 - i else i)"
        by blast
      from i(1,3) that have "i = n" by (cases m) simp_all
      with i(2) show "bs ! n" by simp
    next
      assume "bs ! n"
      with that show "\<exists>i<8. bs ! i \<and> (if m then 7 - n else n) = (if m then 7 - i else i)"
        by blast
    qed
    then show ?thesis unfolding bits using len by (simp add: w8_def w0_def)
  qed
  ultimately show ?thesis unfolding w0_def by blast
qed

text \<open>
  C7: the binary writer collects bit symbols into a group of 8 and, on flushing a full
  group, puts bit \<open>n\<close> of the group at position \<open>n\<close> of the byte when \<open>msb0\<close> is false
  and at position \<open>7 - n\<close> when it is true. Written to a writer with an empty buffer, the
  bits 1,0,1,1,0,0,0,1 give the single byte 0x8D with \<open>msb0\<close> false and 0xB1 with \<open>msb0\<close>
  true. (The two bit symbols are distinct reserved bytes.)
\<close>

theorem binary_writer_bit_order:
  assumes "MachineBit0 sy \<noteq> MachineBit1 sy"
  shows "(\<forall>bs. length bs = 8 \<longrightarrow>
            (\<exists>c. bw_write sy \<lparr>bw_outs = os, msb0 = m, outbuf = []\<rparr> (bitString sy bs)
                   = Some \<lparr>bw_outs = os @ [c], msb0 = m, outbuf = []\<rparr> \<and>
                 (\<forall>n<8. bit c (if m then 7 - n else n) = bs ! n))) \<and>
         bw_write sy (BinaryWriter_init [])
            (bitString sy [True, False, True, True, False, False, False, True])
           = Some \<lparr>bw_outs = [0x8D], msb0 = False, outbuf = []\<rparr> \<and>
         bw_write sy ((BinaryWriter_init [])\<lparr>msb0 := True\<rparr>)
            (bitString sy [True, False, True, True, False, False, False, True])
           = Some \<lparr>bw_outs = [0xB1], msb0 = True, outbuf = []\<rparr>"
proof (intro conjI allI impI)
  fix bs :: "bool list"
  assume "length bs = 8"
  with assms show "\<exists>c. bw_write sy \<lparr>bw_outs = os, msb0 = m, outbuf = []\<rparr> (bitString sy bs)
                   = Some \<lparr>bw_outs = os @ [c], msb0 = m, outbuf = []\<rparr> \<and>
                 (\<forall>n<8. bit c (if m then 7 - n else n) = bs ! n)"
    by (rule bw_write_group)
next
  show "bw_write sy (BinaryWriter_init [])
            (bitString sy [True, False, True, True, False, False, False, True])
           = Some \<lparr>bw_outs = [0x8D], msb0 = False, outbuf = []\<rparr>"
    using assms by (simp add: BinaryWriter_init_def bitString_def bw_flush_def shiftCount_def)
next
  show "bw_write sy ((BinaryWriter_init [])\<lparr>msb0 := True\<rparr>)
            (bitString sy [True, False, True, True, False, False, False, True])
           = Some \<lparr>bw_outs = [0xB1], msb0 = True, outbuf = []\<rparr>"
    using assms by (simp add: BinaryWriter_init_def bitString_def bw_flush_def shiftCount_def)
qed

theorem binary_writer_bit_order_witness:
  "MachineBit0 sampleSymbols \<noteq> MachineBit1 sampleSymbols \<and>
   bw_write sampleSymbols (BinaryWriter_init []) ''10110001''
     = Some \<lparr>bw_outs = [0x8D], msb0 = False, outbuf = []\<rparr> \<and>
   bw_write sampleSymbols ((BinaryWriter_init [])\<lparr>msb0 := True\<rparr>) ''10110001''
     = Some \<lparr>bw_outs = [0xB1], msb0 = True, outbuf = []\<rparr>"
proof -
  have ne: "MachineBit0 sampleSymbols \<noteq> MachineBit1 sampleSymbols"
    by (simp add: sampleSymbols_def)
  have s: "bitString sampleSymbols [True, False, True, True, False, False, False, True] = ''10110001''"
    by (simp add: bitString_def sampleSymbols_def)
  from binary_writer_bit_order [OF ne, of "[]" False] show ?thesis
    unfolding s using ne by blast
qed

text \<open>
  C10: \<open>outbuf\<close> holds at most 7 bits after construction and after every completed call
  of \<^verbatim>\<open>write\<close>. A call that starts with at most 7 pending bits returns, emits one byte
  for each time the buffer reaches 8 bits (so \<open>(pending + bits written) div 8\<close> bytes) and
  leaves \<open>(pending + bits written) mod 8\<close> bits pending.
\<close>

theorem outbuf_never_full:
  "length (outbuf (BinaryWriter_init os)) \<le> 7 \<and>
   (length (outbuf w) \<le> 7 \<longrightarrow>
      (\<exists>w'. bw_write sy w buf = Some w' \<and> length (outbuf w') \<le> 7 \<and>
         length (outbuf w') = (length (outbuf w) + length (bitChars sy buf)) mod 8 \<and>
         length (bw_outs w') =
           length (bw_outs w) + (length (outbuf w) + length (bitChars sy buf)) div 8))"
proof (intro conjI impI)
  show "length (outbuf (BinaryWriter_init os)) \<le> 7"
    by (simp add: BinaryWriter_init_def)
next
  assume "length (outbuf w) \<le> 7"
  from bw_write_counts [OF this, of sy buf] obtain w' where
    r: "bw_write sy w buf = Some w'"
       "length (outbuf w') = (length (outbuf w) + length (bitChars sy buf)) mod 8"
       "length (bw_outs w') =
          length (bw_outs w) + (length (outbuf w) + length (bitChars sy buf)) div 8"
    by blast
  from r(2) have "length (outbuf w') < 8" by simp
  then have "length (outbuf w') \<le> 7" by simp
  with r show "\<exists>w'. bw_write sy w buf = Some w' \<and> length (outbuf w') \<le> 7 \<and>
         length (outbuf w') = (length (outbuf w) + length (bitChars sy buf)) mod 8 \<and>
         length (bw_outs w') =
           length (bw_outs w) + (length (outbuf w) + length (bitChars sy buf)) div 8"
    by blast
qed

theorem outbuf_never_full_witness:
  "length (outbuf (BinaryWriter_init [])) \<le> 7 \<and>
   (\<exists>w'. bw_write sampleSymbols (BinaryWriter_init []) ''1011^00a011$01'' = Some w' \<and>
      length (outbuf w') = 3 \<and> length (bw_outs w') = 1)"
  using outbuf_never_full [of "[]" "BinaryWriter_init []" sampleSymbols "''1011^00a011$01''"]
  by (simp add: BinaryWriter_init_def bitChars_def sampleSymbols_def bw_flush_def shiftCount_def)

section \<open>Properties of the cell layout\<close>

lemma flat_bound:
  fixes s p ms N L1 D2 :: nat
  assumes "s < N" "p < L1" "ms < D2"
  shows "D2 * (p * N + s) + ms < D2 * N * L1"
proof -
  have "p * N + s < Suc p * N" using assms(1) by simp
  also have "\<dots> \<le> L1 * N" using assms(2) by (intro mult_le_mono1) simp
  finally have "Suc (p * N + s) \<le> L1 * N" by simp
  then have "D2 * Suc (p * N + s) \<le> D2 * (L1 * N)" by (rule mult_le_mono2)
  moreover have "D2 * (p * N + s) + ms < D2 * Suc (p * N + s)" using assms(3) by simp
  ultimately have "D2 * (p * N + s) + ms < D2 * (L1 * N)" by (rule less_le_trans [rotated])
  moreover have "D2 * (L1 * N) = D2 * N * L1" by simp
  ultimately show ?thesis by simp
qed

lemma flat_inj:
  fixes s p ms s' p' ms' N D2 :: nat
  assumes "s < N" "s' < N" "ms < D2" "ms' < D2"
    and eq: "D2 * (p * N + s) + ms = D2 * (p' * N + s') + ms'"
  shows "s = s' \<and> p = p' \<and> ms = ms'"
proof -
  have D: "0 < D2" using assms(3) by simp
  have "(D2 * (p * N + s) + ms) div D2 = p * N + s" using assms(3) by simp
  moreover have "(D2 * (p' * N + s') + ms') div D2 = p' * N + s'" using assms(4) by simp
  ultimately have 1: "p * N + s = p' * N + s'" using eq by simp
  have "(D2 * (p * N + s) + ms) mod D2 = ms" using assms(3) by simp
  moreover have "(D2 * (p' * N + s') + ms') mod D2 = ms'" using assms(4) by simp
  ultimately have 2: "ms = ms'" using eq by simp
  have "(p * N + s) div N = p" using assms(1) by simp
  moreover have "(p' * N + s') div N = p'" using assms(2) by simp
  ultimately have 3: "p = p'" using 1 by simp
  with 1 have "s = s'" by simp
  with 2 3 show ?thesis by simp
qed

lemma flat_surj:
  fixes i N L1 D2 :: nat
  assumes "i < D2 * N * L1"
  shows "\<exists>s p ms. s < N \<and> p < L1 \<and> ms < D2 \<and> i = D2 * (p * N + s) + ms"
proof -
  have D: "0 < D2" and N: "0 < N" using assms by (auto intro: Nat.gr0I)
  define q where "q = i div D2"
  have "D2 * N * L1 = (N * L1) * D2" by simp
  with assms have "i < (N * L1) * D2" by simp
  then have "q < N * L1" unfolding q_def by (rule less_mult_imp_div_less)
  then have "q < L1 * N" by (simp add: mult.commute)
  then have "q div N < L1" by (rule less_mult_imp_div_less)
  moreover have "q mod N < N" using N by simp
  moreover have "i mod D2 < D2" using D by simp
  moreover have "i = D2 * (q div N * N + q mod N) + i mod D2" by (simp add: q_def)
  ultimately show ?thesis by blast
qed

lemma prod3_ge:
  fixes a b c :: nat
  assumes "0 < b" "0 < c"
  shows "a \<le> a * b * c" and "0 < a \<Longrightarrow> c \<le> a * b * c" and "a * b \<le> a * b * c"
  using assms by (cases a; cases b; cases c; simp)+

lemma unat_lt64: "unat (x::size_t) < 2 ^ 64"
proof -
  have "unat x < 2 ^ LENGTH(64)" by (rule unsigned_less)
  then show ?thesis by simp
qed

lemma unat_add_fits: "unat (x::size_t) + unat y < 2 ^ 64 \<Longrightarrow> unat (x + y) = unat x + unat y"
  using unat_add_lem [of x y] by simp

lemma unat_mult_fits: "unat (x::size_t) * unat y < 2 ^ 64 \<Longrightarrow> unat (x * y) = unat x * unat y"
  using unat_mult_lem [of x y] by simp

lemma unat_of_nat_fits: "n < 2 ^ 64 \<Longrightarrow> unat (of_nat n :: size_t) = n"
  by (simp add: unat_of_nat)

lemma cellIndex_unat:
  assumes fits: "latticeSize V < 2 ^ 64" and valid: "validCell V (s, p, ms)"
  shows "unat (cellIndex V s p ms)
           = (unat (maxDupLen V) + 2) * (unat p * unat (nStates V) + unat s) + unat ms"
    and "unat (cellIndex V s p ms) < latticeSize V"
proof -
  define D2 where "D2 = unat (maxDupLen V) + 2"
  define N where "N = unat (nStates V)"
  define L1 where "L1 = unat (seqLen V) + 1"
  have T: "D2 * N * L1 < 2 ^ 64" using fits by (simp add: latticeSize_def D2_def N_def L1_def)
  have s: "unat s < N" and p: "unat p < L1" and ms: "unat ms < D2"
    using valid by (simp_all add: validCell_def word_less_nat_alt word_le_nat_alt D2_def N_def L1_def)
  have b: "D2 * (unat p * N + unat s) + unat ms < D2 * N * L1"
    using s p ms by (rule flat_bound)
  have N1: "0 < N" and L1: "0 < L1" using s by (simp_all add: L1_def)
  have D2: "D2 < 2 ^ 64" by (rule le_less_trans [OF prod3_ge(1) [OF N1 L1] T])
  have "unat (maxDupLen V) + unat (2::size_t) < 2 ^ 64" using D2 by (simp add: D2_def)
  then have uD: "unat (maxDupLen V + 2) = D2" by (simp add: unat_add_fits D2_def)
  have X: "unat p * N + unat s \<le> D2 * (unat p * N + unat s) + unat ms"
    by (simp add: D2_def)
  have "unat p * unat (nStates V) < 2 ^ 64" using X b T by (simp add: N_def)
  then have u1: "unat (p * nStates V) = unat p * N" by (simp add: unat_mult_fits N_def)
  have "unat (p * nStates V) + unat s < 2 ^ 64" using X b T by (simp add: u1)
  then have u2: "unat (p * nStates V + s) = unat p * N + unat s" by (simp add: unat_add_fits u1)
  have "unat (maxDupLen V + 2) * unat (p * nStates V + s) < 2 ^ 64" using b T by (simp add: uD u2)
  then have u3: "unat ((maxDupLen V + 2) * (p * nStates V + s)) = D2 * (unat p * N + unat s)"
    by (simp add: unat_mult_fits uD u2)
  have "unat ((maxDupLen V + 2) * (p * nStates V + s)) + unat ms < 2 ^ 64" using b T by (simp add: u3)
  then have u4: "unat (cellIndex V s p ms) = D2 * (unat p * N + unat s) + unat ms"
    by (simp add: cellIndex_def unat_add_fits u3)
  from u4 show "unat (cellIndex V s p ms)
           = (unat (maxDupLen V) + 2) * (unat p * unat (nStates V) + unat s) + unat ms"
    by (simp add: D2_def N_def)
  from u4 b show "unat (cellIndex V s p ms) < latticeSize V"
    by (simp add: latticeSize_def D2_def N_def L1_def)
qed

lemma nCells_unat:
  assumes fits: "latticeSize V < 2 ^ 64" and N: "0 < unat (nStates V)"
  shows "unat (nCells (maxDupLen V) (nStates V) (seqLen V)) = latticeSize V"
proof -
  define D2 where "D2 = unat (maxDupLen V) + 2"
  define N where "N = unat (nStates V)"
  define L1 where "L1 = unat (seqLen V) + 1"
  have T: "D2 * N * L1 < 2 ^ 64" using fits by (simp add: latticeSize_def D2_def N_def L1_def)
  have N1: "0 < N" and L1: "0 < L1" using assms(2) by (simp_all add: L1_def N_def)
  have D2: "D2 < 2 ^ 64" by (rule le_less_trans [OF prod3_ge(1) [OF N1 L1] T])
  have "0 < D2" by (simp add: D2_def)
  then have L: "L1 < 2 ^ 64" by (rule le_less_trans [OF prod3_ge(2) [OF N1 L1] T])
  have DN: "D2 * N < 2 ^ 64" by (rule le_less_trans [OF prod3_ge(3) [OF N1 L1] T])
  have "unat (maxDupLen V) + unat (2::size_t) < 2 ^ 64" using D2 by (simp add: D2_def)
  then have uD: "unat (maxDupLen V + 2) = D2" by (simp add: unat_add_fits D2_def)
  have "unat (seqLen V) + unat (1::size_t) < 2 ^ 64" using L by (simp add: L1_def)
  then have uL: "unat (seqLen V + 1) = L1" by (simp add: unat_add_fits L1_def)
  have "unat (maxDupLen V + 2) * unat (nStates V) < 2 ^ 64" using DN by (simp add: uD N_def)
  then have uDN: "unat ((maxDupLen V + 2) * nStates V) = D2 * N"
    by (simp add: unat_mult_fits uD N_def)
  have "unat ((maxDupLen V + 2) * nStates V) * unat (seqLen V + 1) < 2 ^ 64"
    using T by (simp add: uDN uL)
  then have "unat ((maxDupLen V + 2) * nStates V * (seqLen V + 1)) = D2 * N * L1"
    by (simp add: unat_mult_fits uDN uL)
  then show ?thesis by (simp add: nCells_def latticeSize_def D2_def N_def L1_def)
qed

lemma nCells_zero:
  "unat (nStates V) = 0 \<Longrightarrow> nCells (maxDupLen V) (nStates V) (seqLen V) = 0"
  by (simp add: nCells_def unat_eq_0)

lemma latticeSize_unat:
  assumes fits: "latticeSize V < 2 ^ 64"
  shows "unat (nCells (maxDupLen V) (nStates V) (seqLen V)) = latticeSize V"
proof (cases "unat (nStates V) = 0")
  case True
  then show ?thesis by (simp add: nCells_zero latticeSize_def)
next
  case False
  then have "0 < unat (nStates V)" by simp
  with fits show ?thesis by (rule nCells_unat)
qed

lemma cellIndex_inj:
  assumes fits: "latticeSize V < 2 ^ 64"
  shows "inj_on (\<lambda>(s, p, ms). cellIndex V s p ms) {t. validCell V t}"
proof (rule inj_onI)
  fix x y
  assume x: "x \<in> {t. validCell V t}" and y: "y \<in> {t. validCell V t}"
    and eq: "(case x of (s, p, ms) \<Rightarrow> cellIndex V s p ms) = (case y of (s, p, ms) \<Rightarrow> cellIndex V s p ms)"
  obtain s p ms where xd: "x = (s, p, ms)" by (cases x) auto
  obtain s' p' ms' where yd: "y = (s', p', ms')" by (cases y) auto
  have vx: "validCell V (s, p, ms)" and vy: "validCell V (s', p', ms')"
    using x y by (simp_all add: xd yd)
  have e: "cellIndex V s p ms = cellIndex V s' p' ms'" using eq by (simp add: xd yd)
  have "(unat (maxDupLen V) + 2) * (unat p * unat (nStates V) + unat s) + unat ms
      = (unat (maxDupLen V) + 2) * (unat p' * unat (nStates V) + unat s') + unat ms'"
    using cellIndex_unat(1) [OF fits vx] cellIndex_unat(1) [OF fits vy] e by simp
  moreover have "unat s < unat (nStates V)" "unat s' < unat (nStates V)"
    "unat ms < unat (maxDupLen V) + 2" "unat ms' < unat (maxDupLen V) + 2"
    using vx vy by (simp_all add: validCell_def word_less_nat_alt)
  ultimately have "unat s = unat s' \<and> unat p = unat p' \<and> unat ms = unat ms'"
    by (intro flat_inj)
  then show "x = y" by (simp add: xd yd word_unat_eq_iff)
qed

lemma cellIndex_image:
  assumes fits: "latticeSize V < 2 ^ 64"
  shows "(\<lambda>(s, p, ms). cellIndex V s p ms) ` {t. validCell V t}
           = {i. i < nCells (maxDupLen V) (nStates V) (seqLen V)}"
proof (intro set_eqI iffI)
  fix i
  assume "i \<in> (\<lambda>(s, p, ms). cellIndex V s p ms) ` {t. validCell V t}"
  then obtain s p ms where v: "validCell V (s, p, ms)" and i: "i = cellIndex V s p ms"
    by auto
  have "unat i < latticeSize V" unfolding i using fits v by (rule cellIndex_unat(2))
  then show "i \<in> {i. i < nCells (maxDupLen V) (nStates V) (seqLen V)}"
    by (simp add: word_less_nat_alt latticeSize_unat [OF fits])
next
  fix i
  assume "i \<in> {i. i < nCells (maxDupLen V) (nStates V) (seqLen V)}"
  then have lt: "unat i < latticeSize V"
    by (simp add: word_less_nat_alt latticeSize_unat [OF fits])
  then have "unat i < (unat (maxDupLen V) + 2) * unat (nStates V) * (unat (seqLen V) + 1)"
    by (simp add: latticeSize_def)
  from flat_surj [OF this] obtain s p ms where
    s: "s < unat (nStates V)" and p: "p < unat (seqLen V) + 1" and
    ms: "ms < unat (maxDupLen V) + 2" and
    eq: "unat i = (unat (maxDupLen V) + 2) * (p * unat (nStates V) + s) + ms"
    by blast
  have "s < 2 ^ 64" using s unat_lt64 [of "nStates V"] by simp
  then have us: "unat (of_nat s :: size_t) = s" by (rule unat_of_nat_fits)
  have "p < 2 ^ 64" using p unat_lt64 [of "seqLen V"] by simp
  then have up: "unat (of_nat p :: size_t) = p" by (rule unat_of_nat_fits)
  have "ms \<le> unat i" using eq by simp
  then have "ms < 2 ^ 64" using unat_lt64 [of i] by simp
  then have ums: "unat (of_nat ms :: size_t) = ms" by (rule unat_of_nat_fits)
  have v: "validCell V (of_nat s, of_nat p, of_nat ms)"
    using s p ms by (simp add: validCell_def word_less_nat_alt word_le_nat_alt us up ums)
  have "unat (cellIndex V (of_nat s) (of_nat p) (of_nat ms)) = unat i"
    using cellIndex_unat(1) [OF fits v] eq by (simp add: us up ums)
  then have "cellIndex V (of_nat s) (of_nat p) (of_nat ms) = i"
    by (simp add: word_unat_eq_iff)
  with v show "i \<in> (\<lambda>(s, p, ms). cellIndex V s p ms) ` {t. validCell V t}"
    by (intro image_eqI [where x = "(of_nat s, of_nat p, of_nat ms)"]) simp_all
qed

text \<open>
  C8: \<open>cellIndex (state, pos, mutState) = (maxDupLen + 2) * (pos * nStates + state) + mutState\<close>,
  and this map is a bijection between the valid triples (\<open>state\<close> in \<open>[0, nStates)\<close>,
  \<open>pos\<close> in \<open>[0, seqLen]\<close>, \<open>mutState\<close> in \<open>[0, maxDupLen + 2)\<close>) and the indices of
  the flat cell array of size \<open>(maxDupLen + 2) * nStates * (seqLen + 1)\<close>. The array has
  a \<^verbatim>\<open>size_t\<close> length, so that number is below \<open>2 ^ 64\<close>; then \<^verbatim>\<open>nCells\<close> computes it
  and no step of \<^verbatim>\<open>cellIndex\<close> wraps around on a valid triple.
\<close>

theorem cellIndex_bijection:
  assumes "latticeSize V < 2 ^ 64"
  shows "cellIndex V st pos mutState = (maxDupLen V + 2) * (pos * nStates V + st) + mutState \<and>
         (validCell V (st, pos, mutState) \<longrightarrow>
            unat (cellIndex V st pos mutState)
              = (unat (maxDupLen V) + 2) * (unat pos * unat (nStates V) + unat st) + unat mutState) \<and>
         unat (nCells (maxDupLen V) (nStates V) (seqLen V)) = latticeSize V \<and>
         bij_betw (\<lambda>(s, p, ms). cellIndex V s p ms) {t. validCell V t}
           {i. i < nCells (maxDupLen V) (nStates V) (seqLen V)}"
proof (intro conjI impI)
  show "cellIndex V st pos mutState = (maxDupLen V + 2) * (pos * nStates V + st) + mutState"
    by (simp add: cellIndex_def)
next
  assume "validCell V (st, pos, mutState)"
  with assms show "unat (cellIndex V st pos mutState)
              = (unat (maxDupLen V) + 2) * (unat pos * unat (nStates V) + unat st) + unat mutState"
    by (rule cellIndex_unat(1))
next
  from assms show "unat (nCells (maxDupLen V) (nStates V) (seqLen V)) = latticeSize V"
    by (rule latticeSize_unat)
next
  show "bij_betw (\<lambda>(s, p, ms). cellIndex V s p ms) {t. validCell V t}
           {i. i < nCells (maxDupLen V) (nStates V) (seqLen V)}"
    unfolding bij_betw_def using cellIndex_inj [OF assms] cellIndex_image [OF assms] by blast
qed

theorem cellIndex_bijection_witness:
  "latticeSize sampleMatrix = 60 \<and> validCell sampleMatrix (2, 4, 3) \<and>
   cellIndex sampleMatrix 2 4 3 = 59 \<and>
   nCells (maxDupLen sampleMatrix) (nStates sampleMatrix) (seqLen sampleMatrix) = 60 \<and>
   bij_betw (\<lambda>(s, p, ms). cellIndex sampleMatrix s p ms) {t. validCell sampleMatrix t} {i. i < 60}"
proof -
  have ls: "latticeSize sampleMatrix = 60" by (simp add: latticeSize_def sampleMatrix_def)
  then have fits: "latticeSize sampleMatrix < 2 ^ 64" by simp
  have v: "validCell sampleMatrix (2, 4, 3)" by (simp add: validCell_def sampleMatrix_def)
  have n: "nCells (maxDupLen sampleMatrix) (nStates sampleMatrix) (seqLen sampleMatrix) = 60"
    by (simp add: nCells_def sampleMatrix_def)
  have c: "cellIndex sampleMatrix 2 4 3 = 59" by (simp add: cellIndex_def sampleMatrix_def)
  from cellIndex_bijection [OF fits, of 2 4 3] ls v n c show ?thesis by simp
qed

lemma isTMutStateIndex_range:
  assumes D: "unat (maxDupLen V) + 2 < 2 ^ 64"
  shows "isTMutStateIndex V i \<longleftrightarrow> 2 \<le> unat i \<and> unat i \<le> unat (maxDupLen V) + 1"
proof -
  have "unat (maxDupLen V) + unat (1::size_t) < 2 ^ 64" using D by simp
  then have "unat (maxDupLen V + 1) = unat (maxDupLen V) + 1" by (simp add: unat_add_fits)
  then have u: "unat (1 + maxDupLen V) = Suc (unat (maxDupLen V))" by (simp add: add.commute)
  have "tMutStateIndex (maxDupLen V - 1) = 1 + maxDupLen V" by (simp add: tMutStateIndex_def)
  then show ?thesis
    by (simp add: isTMutStateIndex_def tMutStateIndex_def word_le_nat_alt u)
qed

lemma tMutStateIndex_unat:
  assumes D: "unat (maxDupLen V) + 2 < 2 ^ 64" and k: "unat k < unat (maxDupLen V)"
  shows "unat (tMutStateIndex k) = 2 + unat k"
proof -
  have "unat (2::size_t) + unat k < 2 ^ 64" using D k by simp
  then show ?thesis by (simp add: tMutStateIndex_def unat_add_fits)
qed

lemma tanDupBase_Some:
  assumes sz: "length (leftContext ss) < 2 ^ 64" and k: "unat k < length (leftContext ss)"
  shows "tanDupBase ss k = Some (leftContext ss ! (length (leftContext ss) - 1 - unat k))"
proof -
  define n where "n = length (leftContext ss)"
  have un: "unat (leftContextSize ss) = n"
    using sz by (simp add: leftContextSize_def n_def unat_of_nat_fits)
  have "1 \<le> leftContextSize ss" using k by (simp add: word_le_nat_alt un n_def)
  then have u1: "unat (leftContextSize ss - 1) = n - 1" by (simp add: unat_sub un)
  have "k \<le> leftContextSize ss - 1" using k by (simp add: word_le_nat_alt u1 n_def)
  then have "unat (leftContextSize ss - 1 - k) = n - 1 - unat k" by (simp add: unat_sub u1)
  moreover have "n - 1 - unat k < n" using k by (simp add: n_def)
  ultimately show ?thesis by (simp add: tanDupBase_def n_def)
qed

lemma maxDupLenAt_unat:
  assumes sz: "length (leftContext ss) < 2 ^ 64"
  shows "unat (maxDupLenAt V ss) = min (unat (maxDupLen V)) (length (leftContext ss))"
proof -
  have un: "unat (leftContextSize ss) = length (leftContext ss)"
    using sz by (simp add: leftContextSize_def unat_of_nat_fits)
  show ?thesis
    by (simp add: maxDupLenAt_def min_def word_le_nat_alt un)
qed

text \<open>
  C9: for a state with a non-empty \<open>leftContext\<close>, the tandem-duplication mutator states
  are the flat indices 2 to \<open>maxDupLen + 1\<close>, index \<open>2 + k\<close> standing for \<open>T(k)\<close>; the
  base emitted in \<open>T(k)\<close> is \<open>leftContext[|leftContext| - 1 - k]\<close>; and the number of
  tandem-duplication states available at the state is \<open>min (maxDupLen, |leftContext|)\<close>.
  (The vector's size and the length \<open>maxDupLen + 2\<close> of the mutator axis are
  \<^verbatim>\<open>size_t\<close> values.)
\<close>

theorem tandem_dup_states:
  assumes "leftContext ss \<noteq> []"
    and "length (leftContext ss) < 2 ^ 64"
    and "unat (maxDupLen V) + 2 < 2 ^ 64"
  shows "tMutStateIndex k = 2 + k \<and> tMutStateDupIdx (tMutStateIndex k) = k \<and>
         (isTMutStateIndex V i \<longleftrightarrow> 2 \<le> unat i \<and> unat i \<le> unat (maxDupLen V) + 1) \<and>
         (unat k < unat (maxDupLen V) \<longrightarrow>
            isTMutStateIndex V (tMutStateIndex k) \<and> unat (tMutStateIndex k) = 2 + unat k) \<and>
         (unat k < length (leftContext ss) \<longrightarrow>
            tanDupBase ss k = Some (leftContext ss ! (length (leftContext ss) - 1 - unat k))) \<and>
         unat (maxDupLenAt V ss) = min (unat (maxDupLen V)) (length (leftContext ss))"
proof (intro conjI impI)
  show "tMutStateIndex k = 2 + k" by (simp add: tMutStateIndex_def)
next
  show "tMutStateDupIdx (tMutStateIndex k) = k"
    by (simp add: tMutStateIndex_def tMutStateDupIdx_def)
next
  from assms(3) show "isTMutStateIndex V i \<longleftrightarrow> 2 \<le> unat i \<and> unat i \<le> unat (maxDupLen V) + 1"
    by (rule isTMutStateIndex_range)
next
  assume k: "unat k < unat (maxDupLen V)"
  with assms(3) have u: "unat (tMutStateIndex k) = 2 + unat k" by (rule tMutStateIndex_unat)
  with k show "isTMutStateIndex V (tMutStateIndex k)"
    by (simp add: isTMutStateIndex_range [OF assms(3)])
next
  assume "unat k < unat (maxDupLen V)"
  with assms(3) show "unat (tMutStateIndex k) = 2 + unat k" by (rule tMutStateIndex_unat)
next
  assume "unat k < length (leftContext ss)"
  with assms(2) show "tanDupBase ss k = Some (leftContext ss ! (length (leftContext ss) - 1 - unat k))"
    by (rule tanDupBase_Some)
next
  from assms(2) show "unat (maxDupLenAt V ss) = min (unat (maxDupLen V)) (length (leftContext ss))"
    by (rule maxDupLenAt_unat)
qed

theorem tandem_dup_states_witness:
  "leftContext sampleScores \<noteq> [] \<and> tMutStateIndex 1 = 3 \<and> tMutStateDupIdx 3 = 1 \<and>
   isTMutStateIndex sampleMatrix 3 \<and> \<not> isTMutStateIndex sampleMatrix 4 \<and>
   tanDupBase sampleScores 1 = Some CHR ''C'' \<and> unat (maxDupLenAt sampleMatrix sampleScores) = 2"
proof -
  have a: "leftContext sampleScores \<noteq> []" by (simp add: sampleScores_def)
  have b: "length (leftContext sampleScores) < 2 ^ 64" by (simp add: sampleScores_def)
  have c: "unat (maxDupLen sampleMatrix) + 2 < 2 ^ 64" by (simp add: sampleMatrix_def)
  have t: "tMutStateIndex 1 = 3" by (simp add: tMutStateIndex_def)
  have m: "unat (maxDupLen sampleMatrix) = 2" by (simp add: sampleMatrix_def)
  have l: "length (leftContext sampleScores) = 3" by (simp add: sampleScores_def)
  note th3 = tandem_dup_states [OF a b c, of 1 3, unfolded t m l]
  note th4 = tandem_dup_states [OF a b c, of 1 4, unfolded t m l]
  have 1: "tMutStateDupIdx 3 = 1" using th3 by blast
  have 2: "isTMutStateIndex sampleMatrix 3" using th3 by simp
  have 3: "\<not> isTMutStateIndex sampleMatrix 4" using th4 by simp
  have "tanDupBase sampleScores 1 = Some (leftContext sampleScores ! (3 - 1 - unat (1::size_t)))"
    using th3 by simp
  then have 4: "tanDupBase sampleScores 1 = Some CHR ''C''" by (simp add: sampleScores_def)
  have 5: "unat (maxDupLenAt sampleMatrix sampleScores) = 2" using th3 by simp
  from a t 1 2 3 4 5 show ?thesis by blast
qed

section \<open>Properties of shiftResolvedSymbols\<close>

lemma scanQueues_empty_first:
  "scanQueues rest (True, False, fs, fc) = (True, False, fs, fc)"
  by (induction rest) auto

lemma scanQueues_nonempty_first:
  "scanQueues rest (True, True, True, fc)
     = (True, True, list_all (\<lambda>(st, str). str \<noteq> [] \<and> hd str = fc) rest, fc)"
  by (induction rest) auto

lemma scanQueues_start:
  "scanQueues cur scanStart = (fq, qn, fs, fc) \<Longrightarrow> (fq \<and> qn \<and> fs) = frontOfAll fc cur"
proof (cases cur)
  case Nil
  assume "scanQueues cur scanStart = (fq, qn, fs, fc)"
  with Nil show ?thesis by (auto simp add: scanStart_def frontOfAll_def)
next
  case (Cons p rest)
  obtain s q where p: "p = (s, q)" by (cases p)
  assume a: "scanQueues cur scanStart = (fq, qn, fs, fc)"
  show ?thesis
  proof (cases "q = []")
    case True
    with a show ?thesis
      by (auto simp add: Cons p scanStart_def scanQueues_empty_first frontOfAll_def)
  next
    case False
    with a show ?thesis
      by (auto simp add: Cons p scanStart_def scanQueues_nonempty_first frontOfAll_def)
  qed
qed

lemma scanQueues_front:
  assumes "frontOfAll c cur"
  shows "scanQueues cur scanStart = (True, True, True, c)"
proof -
  from assms obtain s q rest where cur: "cur = (s, q) # rest" and q: "q \<noteq> []" "hd q = c"
    and rest: "list_all (\<lambda>(st, str). str \<noteq> [] \<and> hd str = c) rest"
    by (cases cur) (auto simp add: frontOfAll_def)
  then show ?thesis by (simp add: scanStart_def scanQueues_nonempty_first)
qed

lemma shift_step:
  assumes "frontOfAll c (current d)"
  shows "shiftResolvedSymbols d
           = shiftResolvedSymbols ((dec_write d [c])\<lparr>current := popAll (current d)\<rparr>)"
  by (subst shiftResolvedSymbols.simps) (simp add: scanQueues_front [OF assms])

lemma shift_stop:
  assumes "\<And>c. \<not> frontOfAll c (current d)"
  shows "shiftResolvedSymbols d = d"
proof -
  obtain fq qn fs fc where sc: "scanQueues (current d) scanStart = (fq, qn, fs, fc)"
    by (metis prod_cases4)
  from scanQueues_start [OF sc] assms have "\<not> (fq \<and> qn \<and> fs)" by simp
  with sc show ?thesis by (subst shiftResolvedSymbols.simps) auto
qed

lemma shift_final: "\<not> frontOfAll c (current (shiftResolvedSymbols d))"
proof (induction d rule: shiftResolvedSymbols.induct)
  case (1 d)
  show ?case
  proof (cases "\<exists>c'. frontOfAll c' (current d)")
    case True
    then obtain c' where f: "frontOfAll c' (current d)" by blast
    from scanQueues_front [OF f] have sc: "scanQueues (current d) scanStart = (True, True, True, c')" .
    have "\<not> frontOfAll c (current (shiftResolvedSymbols ((dec_write d [c'])\<lparr>current := popAll (current d)\<rparr>)))"
      by (rule "1.IH" [OF sc [symmetric]]) simp_all
    then show ?thesis by (simp add: shift_step [OF f])
  next
    case False
    then have "shiftResolvedSymbols d = d" by (intro shift_stop) blast
    with False show ?thesis by simp
  qed
qed

lemma popAll_drop:
  "map (\<lambda>(st, str). (st, drop n str)) (popAll cur) = map (\<lambda>(st, str). (st, drop (Suc n) str)) cur"
  by (induction cur) (auto simp add: popAll_def drop_Suc)

lemma popAll_take:
  "list_all (\<lambda>(st, str). str \<noteq> [] \<and> hd str = c) cur \<Longrightarrow>
   list_all (\<lambda>(st, str). take n str = p) (popAll cur) \<Longrightarrow>
   list_all (\<lambda>(st, str). take (Suc n) str = c # p) cur"
proof (induction cur)
  case Nil
  then show ?case by simp
next
  case (Cons x cur)
  obtain st str where x: "x = (st, str)" by (cases x)
  from Cons.prems(1) obtain r where str: "str = c # r" by (cases str) (auto simp add: x)
  from Cons show ?case by (simp add: x str popAll_def)
qed

lemma shift_prefix:
  "\<exists>p. outs (shiftResolvedSymbols d) = outs d @ p \<and>
       warnings (shiftResolvedSymbols d) = warnings d \<and>
       list_all (\<lambda>(st, str). take (length p) str = p) (current d) \<and>
       current (shiftResolvedSymbols d) = map (\<lambda>(st, str). (st, drop (length p) str)) (current d)"
proof (induction d rule: shiftResolvedSymbols.induct)
  case (1 d)
  show ?case
  proof (cases "\<exists>c'. frontOfAll c' (current d)")
    case True
    then obtain c where f: "frontOfAll c (current d)" by blast
    from scanQueues_front [OF f] have sc: "scanQueues (current d) scanStart = (True, True, True, c)" .
    define d1 where "d1 = (dec_write d [c])\<lparr>current := popAll (current d)\<rparr>"
    have "\<exists>p. outs (shiftResolvedSymbols d1) = outs d1 @ p \<and>
       warnings (shiftResolvedSymbols d1) = warnings d1 \<and>
       list_all (\<lambda>(st, str). take (length p) str = p) (current d1) \<and>
       current (shiftResolvedSymbols d1) = map (\<lambda>(st, str). (st, drop (length p) str)) (current d1)"
      unfolding d1_def by (rule "1.IH" [OF sc [symmetric]]) simp_all
    then obtain p where p: "outs (shiftResolvedSymbols d1) = outs d1 @ p"
      "warnings (shiftResolvedSymbols d1) = warnings d1"
      "list_all (\<lambda>(st, str). take (length p) str = p) (current d1)"
      "current (shiftResolvedSymbols d1) = map (\<lambda>(st, str). (st, drop (length p) str)) (current d1)"
      by blast
    have s: "shiftResolvedSymbols d = shiftResolvedSymbols d1"
      unfolding d1_def by (rule shift_step [OF f])
    have all: "list_all (\<lambda>(st, str). str \<noteq> [] \<and> hd str = c) (current d)"
      using f by (simp add: frontOfAll_def)
    have "outs (shiftResolvedSymbols d) = outs d @ (c # p)"
      using p(1) by (simp add: s d1_def dec_write_def)
    moreover have "warnings (shiftResolvedSymbols d) = warnings d"
      using p(2) by (simp add: s d1_def dec_write_def)
    moreover have "list_all (\<lambda>(st, str). take (length (c # p)) str = c # p) (current d)"
      using popAll_take [OF all, of "length p" p] p(3) by (simp add: d1_def)
    moreover have "current (shiftResolvedSymbols d)
        = map (\<lambda>(st, str). (st, drop (length (c # p)) str)) (current d)"
      using p(4) by (simp add: s d1_def popAll_drop)
    ultimately show ?thesis by blast
  next
    case False
    then have "shiftResolvedSymbols d = d" by (intro shift_stop) blast
    then have "outs (shiftResolvedSymbols d) = outs d @ [] \<and>
       warnings (shiftResolvedSymbols d) = warnings d \<and>
       list_all (\<lambda>(st, str). take (length ([]::char list)) str = []) (current d) \<and>
       current (shiftResolvedSymbols d) = map (\<lambda>(st, str). (st, drop (length ([]::char list)) str)) (current d)"
      by (simp add: list_all_iff split_beta)
    then show ?thesis by blast
  qed
qed

section \<open>Properties of expand\<close>

lemma ss_keys_Nil: "ss_keys [] = {}"
  by (simp add: ss_keys_def)

lemma ss_keys_Cons: "ss_keys ((k, v) # m) = insert k (ss_keys m)"
  by (simp add: ss_keys_def)

lemma ss_keys_assign: "ss_keys (ss_assign k v m) = insert k (ss_keys m)"
proof (induction m)
  case Nil
  show ?case by (simp add: ss_keys_Nil ss_keys_Cons)
next
  case (Cons x m)
  obtain k' v' where x: "x = (k', v')" by (cases x)
  from Cons show ?case by (auto simp add: x ss_keys_Cons)
qed

lemma map_of_ss_assign: "map_of (ss_assign k v m) k' = (if k' = k then Some v else map_of m k')"
  by (induction m) auto

lemma map_of_None_keys: "map_of m k = None \<longleftrightarrow> k \<notin> ss_keys m"
  by (simp add: map_of_eq_None_iff ss_keys_def)

lemma ss_keys_insert: "ss_keys (ss_insert k v m) = insert k (ss_keys m)"
proof (cases "map_of m k")
  case None
  then show ?thesis by (simp add: ss_insert_def ss_keys_assign)
next
  case (Some q)
  then have "k \<in> ss_keys m" using map_of_None_keys [of m k] by simp
  with Some show ?thesis by (auto simp add: ss_insert_def)
qed

lemma statesOk_Nil: "statesOk m []"
  by (simp add: statesOk_def)

lemma statesOk_Cons: "statesOk m ((st, str) # cur) \<longleftrightarrow> st < length (state m) \<and> statesOk m cur"
  by (simp add: statesOk_def)

lemma statesOk_keys: "statesOk m cur \<longleftrightarrow> ss_keys cur \<subseteq> {..<length (state m)}"
  by (induction cur) (auto simp add: statesOk_Nil statesOk_Cons ss_keys_Nil ss_keys_Cons)

lemma expand_keep_Inr:
  "expand_keep m cur (next, seen) = Inr (next', seen') \<Longrightarrow>
     statesOk m cur \<and> ss_keys seen' = ss_keys seen \<union> ss_keys cur \<and>
     ss_keys next' \<subseteq> ss_keys next \<union> ss_keys cur"
proof (induction cur arbitrary: "next" seen)
  case Nil
  then show ?case by (simp add: statesOk_def ss_keys_Nil)
next
  case (Cons x cur)
  obtain st str where x: "x = (st, str)" by (cases x)
  from Cons.prems have ok: "st < length (state m)"
    by (auto simp add: x stateAt_def split: if_splits)
  define n1 where "n1 = (if isEnd (state m ! st) \<or> emitsOutput (state m ! st) then ss_assign st str next else next)"
  from Cons.prems ok have "expand_keep m cur (n1, ss_insert st str seen) = Inr (next', seen')"
    by (simp add: x stateAt_def n1_def)
  from Cons.IH [OF this] have
    1: "statesOk m cur" and 2: "ss_keys seen' = ss_keys (ss_insert st str seen) \<union> ss_keys cur"
    and 3: "ss_keys next' \<subseteq> ss_keys n1 \<union> ss_keys cur" by simp_all
  have 4: "ss_keys n1 \<subseteq> insert st (ss_keys next)"
    by (auto simp add: n1_def ss_keys_assign)
  have "statesOk m (x # cur)" using 1 ok by (simp add: x statesOk_Cons)
  moreover have "ss_keys seen' = ss_keys seen \<union> ss_keys (x # cur)"
    using 2 by (simp add: x ss_keys_insert ss_keys_Cons)
  moreover have "ss_keys next' \<subseteq> ss_keys next \<union> ss_keys (x # cur)"
    using 3 4 by (auto simp add: x ss_keys_Cons)
  ultimately show ?case by blast
qed

lemma expand_keep_Inl:
  "expand_keep m cur (next, seen) = Inl e \<Longrightarrow> \<exists>s. e = BadState s \<and> \<not> statesOk m cur"
proof (induction cur arbitrary: "next" seen)
  case Nil
  then show ?case by simp
next
  case (Cons x cur)
  obtain st str where x: "x = (st, str)" by (cases x)
  show ?case
  proof (cases "st < length (state m)")
    case True
    with Cons.prems obtain n1 s1 where "expand_keep m cur (n1, s1) = Inl e"
      by (auto simp add: x stateAt_def)
    from Cons.IH [OF this] show ?thesis by (auto simp add: x statesOk_Cons)
  next
    case False
    with Cons.prems show ?thesis by (auto simp add: x stateAt_def statesOk_Cons)
  qed
qed

lemma expand_trans_keys:
  "expand_trans sy seen str ts (next, fn) = Inr (next', fn') \<Longrightarrow>
     ss_keys next \<subseteq> ss_keys next' \<and> ss_keys next' \<subseteq> ss_keys next \<union> dest ` set ts"
proof (induction ts arbitrary: "next" fn)
  case Nil
  then show ?case by simp
next
  case (Cons t ts)
  show ?case
  proof (cases "isUsable sy t \<and> outputEmpty sy t \<and> map_of seen (dest t) = None")
    case True
    with Cons.prems have "expand_trans sy seen str ts (ss_assign (dest t) (nextStr sy str t) next, True) = Inr (next', fn')"
      by simp
    from Cons.IH [OF this] show ?thesis by (auto simp add: ss_keys_assign)
  next
    case False
    with Cons.prems have "expand_trans sy seen str ts (next, fn) = Inr (next', fn')"
      by (auto split: if_splits option.splits)
    from Cons.IH [OF this] show ?thesis by auto
  qed
qed

lemma expand_trans_found:
  "expand_trans sy seen str ts (next, fn) = Inr (next', fn') \<Longrightarrow>
     fn' = (fn \<or> (\<exists>t\<in>set ts. isUsable sy t \<and> outputEmpty sy t \<and> dest t \<notin> ss_keys seen))"
proof (induction ts arbitrary: "next" fn)
  case Nil
  then show ?case by simp
next
  case (Cons t ts)
  show ?case
  proof (cases "isUsable sy t \<and> outputEmpty sy t \<and> map_of seen (dest t) = None")
    case True
    with Cons.prems have "expand_trans sy seen str ts (ss_assign (dest t) (nextStr sy str t) next, True) = Inr (next', fn')"
      by simp
    from Cons.IH [OF this] True show ?thesis by (auto simp add: map_of_None_keys)
  next
    case False
    with Cons.prems have "expand_trans sy seen str ts (next, fn) = Inr (next', fn')"
      by (auto split: if_splits option.splits)
    from Cons.IH [OF this] False show ?thesis by (auto simp add: map_of_None_keys)
  qed
qed

lemma expand_trans_same:
  "expand_trans sy seen str ts (next, fn) = Inr (next', False) \<Longrightarrow> next' = next"
proof (induction ts arbitrary: "next" fn)
  case Nil
  then show ?case by simp
next
  case (Cons t ts)
  show ?case
  proof (cases "isUsable sy t \<and> outputEmpty sy t \<and> map_of seen (dest t) = None")
    case True
    with Cons.prems have "expand_trans sy seen str ts (ss_assign (dest t) (nextStr sy str t) next, True) = Inr (next', False)"
      by simp
    from expand_trans_found [OF this] show ?thesis by simp
  next
    case False
    with Cons.prems have "expand_trans sy seen str ts (next, fn) = Inr (next', False)"
      by (auto split: if_splits option.splits)
    from Cons.IH [OF this] show ?thesis .
  qed
qed

lemma expand_trans_new:
  "expand_trans sy seen str ts (next, fn) = Inr (next', fn') \<Longrightarrow>
     (fn \<longrightarrow> \<not> ss_keys next \<subseteq> ss_keys seen) \<Longrightarrow> fn' \<Longrightarrow> \<not> ss_keys next' \<subseteq> ss_keys seen"
proof (induction ts arbitrary: "next" fn)
  case Nil
  then show ?case by simp
next
  case (Cons t ts)
  show ?case
  proof (cases "isUsable sy t \<and> outputEmpty sy t \<and> map_of seen (dest t) = None")
    case True
    with Cons.prems have "expand_trans sy seen str ts (ss_assign (dest t) (nextStr sy str t) next, True) = Inr (next', fn')"
      by simp
    moreover have "True \<longrightarrow> \<not> ss_keys (ss_assign (dest t) (nextStr sy str t) next) \<subseteq> ss_keys seen"
      using True by (simp add: ss_keys_assign map_of_None_keys)
    ultimately show ?thesis using Cons.prems(3) by (rule Cons.IH)
  next
    case False
    with Cons.prems have "expand_trans sy seen str ts (next, fn) = Inr (next', fn')"
      by (auto split: if_splits option.splits)
    then show ?thesis using Cons.prems(2,3) by (rule Cons.IH)
  qed
qed

lemma expand_trans_Inl:
  "expand_trans sy seen str ts (next, fn) = Inl e \<Longrightarrow> \<exists>s q q'. e = QueueConflict s q q'"
proof (induction ts arbitrary: "next" fn)
  case Nil
  then show ?case by simp
next
  case (Cons t ts)
  show ?case
  proof (cases "\<exists>n1 f1. expand_trans sy seen str ts (n1, f1) = Inl e")
    case True
    then obtain n1 f1 where "expand_trans sy seen str ts (n1, f1) = Inl e" by blast
    then show ?thesis by (rule Cons.IH)
  next
    case False
    with Cons.prems show ?thesis by (auto split: if_splits option.splits)
  qed
qed

lemma expand_step_Cons:
  "expand_step sy m seen ((st, str) # rest) acc = Inr r \<Longrightarrow>
     st < length (state m) \<and>
     (\<exists>n1 f1. expand_trans sy seen str (trans_list (state m ! st)) acc = Inr (n1, f1) \<and>
        expand_step sy m seen rest (n1, f1) = Inr r)"
  by (cases "expand_trans sy seen str (trans_list (state m ! st)) acc")
     (auto simp add: stateAt_def split: if_splits)

lemma expand_step_found:
  "expand_step sy m seen cur (next, fn) = Inr (next', fn') \<Longrightarrow>
     fn' = (fn \<or> (\<exists>(st, str)\<in>set cur. \<exists>t\<in>set (trans_list (state m ! st)).
                     isUsable sy t \<and> outputEmpty sy t \<and> dest t \<notin> ss_keys seen))"
proof (induction cur arbitrary: "next" fn)
  case Nil
  then show ?case by simp
next
  case (Cons x cur)
  obtain st str where x: "x = (st, str)" by (cases x)
  from expand_step_Cons [OF Cons.prems [unfolded x]] obtain n1 f1 where
    t: "expand_trans sy seen str (trans_list (state m ! st)) (next, fn) = Inr (n1, f1)" and
    r: "expand_step sy m seen cur (n1, f1) = Inr (next', fn')" by blast
  from expand_trans_found [OF t] Cons.IH [OF r] show ?case by (auto simp add: x)
qed

lemma expand_step_same:
  "expand_step sy m seen cur (next, fn) = Inr (next', False) \<Longrightarrow> next' = next"
proof (induction cur arbitrary: "next" fn)
  case Nil
  then show ?case by simp
next
  case (Cons x cur)
  obtain st str where x: "x = (st, str)" by (cases x)
  from expand_step_Cons [OF Cons.prems [unfolded x]] obtain n1 f1 where
    t: "expand_trans sy seen str (trans_list (state m ! st)) (next, fn) = Inr (n1, f1)" and
    r: "expand_step sy m seen cur (n1, f1) = Inr (next', False)" by blast
  from expand_step_found [OF r] have "\<not> f1" by simp
  with t have "n1 = next" by (simp add: expand_trans_same)
  with Cons.IH [OF r] show ?case by simp
qed

lemma expand_step_new:
  "expand_step sy m seen cur (next, fn) = Inr (next', fn') \<Longrightarrow>
     (fn \<longrightarrow> \<not> ss_keys next \<subseteq> ss_keys seen) \<Longrightarrow> fn' \<Longrightarrow> \<not> ss_keys next' \<subseteq> ss_keys seen"
proof (induction cur arbitrary: "next" fn)
  case Nil
  then show ?case by simp
next
  case (Cons x cur)
  obtain st str where x: "x = (st, str)" by (cases x)
  from expand_step_Cons [OF Cons.prems(1) [unfolded x]] obtain n1 f1 where
    t: "expand_trans sy seen str (trans_list (state m ! st)) (next, fn) = Inr (n1, f1)" and
    r: "expand_step sy m seen cur (n1, f1) = Inr (next', fn')" by blast
  have "f1 \<longrightarrow> \<not> ss_keys n1 \<subseteq> ss_keys seen"
    using expand_trans_new [OF t Cons.prems(2)] by blast
  with r show ?case using Cons.prems(3) by (rule Cons.IH)
qed

lemma wellFormed_dest:
  "wellFormed m \<Longrightarrow> st < length (state m) \<Longrightarrow> t \<in> set (trans_list (state m ! st)) \<Longrightarrow>
     dest t < length (state m)"
  by (auto simp add: wellFormed_def list_all_iff)

lemma expand_step_statesOk:
  "wellFormed m \<Longrightarrow> expand_step sy m seen cur (next, fn) = Inr (next', fn') \<Longrightarrow>
     statesOk m next \<Longrightarrow> statesOk m next'"
proof (induction cur arbitrary: "next" fn)
  case Nil
  then show ?case by simp
next
  case (Cons x cur)
  obtain st str where x: "x = (st, str)" by (cases x)
  from expand_step_Cons [OF Cons.prems(2) [unfolded x]] obtain n1 f1 where
    st: "st < length (state m)" and
    t: "expand_trans sy seen str (trans_list (state m ! st)) (next, fn) = Inr (n1, f1)" and
    r: "expand_step sy m seen cur (n1, f1) = Inr (next', fn')" by blast
  have "dest ` set (trans_list (state m ! st)) \<subseteq> {..<length (state m)}"
    using wellFormed_dest [OF Cons.prems(1) st] by auto
  moreover have "ss_keys next \<subseteq> {..<length (state m)}"
    using Cons.prems(3) by (simp add: statesOk_keys)
  moreover have "ss_keys n1 \<subseteq> ss_keys next \<union> dest ` set (trans_list (state m ! st))"
    using expand_trans_keys [OF t] by simp
  ultimately have "ss_keys n1 \<subseteq> {..<length (state m)}" by blast
  then have "statesOk m n1" by (simp add: statesOk_keys)
  with Cons.prems(1) r show ?case by (rule Cons.IH)
qed

lemma expand_step_Inl:
  "expand_step sy m seen cur acc = Inl e \<Longrightarrow>
     (\<exists>s q q'. e = QueueConflict s q q') \<or> (\<exists>s. e = BadState s \<and> \<not> statesOk m cur)"
proof (induction cur arbitrary: acc)
  case Nil
  then show ?case by simp
next
  case (Cons x cur)
  obtain st str where x: "x = (st, str)" by (cases x)
  obtain n0 f0 where acc: "acc = (n0, f0)" by (cases acc)
  show ?case
  proof (cases "st < length (state m)")
    case False
    with Cons.prems show ?thesis by (auto simp add: x stateAt_def statesOk_Cons)
  next
    case True
    show ?thesis
    proof (cases "expand_trans sy seen str (trans_list (state m ! st)) acc")
      case (Inl e')
      with Cons.prems True have "e' = e" by (simp add: x stateAt_def)
      with Inl expand_trans_Inl [of sy seen str _ n0 f0 e] show ?thesis by (auto simp add: acc)
    next
      case (Inr acc')
      with Cons.prems True have "expand_step sy m seen cur acc' = Inl e" by (simp add: x stateAt_def)
      from Cons.IH [OF this] show ?thesis by (auto simp add: x statesOk_Cons)
    qed
  qed
qed

lemma expand_pass_Inr:
  assumes "expand_pass sy m cur seen = Inr (next', seen', fn)"
  shows "statesOk m cur" and "ss_keys seen' = ss_keys seen \<union> ss_keys cur"
    and "fn \<Longrightarrow> \<not> ss_keys next' \<subseteq> ss_keys seen'"
    and "\<not> fn \<Longrightarrow> ss_keys next' \<subseteq> ss_keys cur"
    and "wellFormed m \<Longrightarrow> statesOk m next'"
    and "fn = (\<exists>(st, str)\<in>set cur. \<exists>t\<in>set (trans_list (state m ! st)).
                  isUsable sy t \<and> outputEmpty sy t \<and> dest t \<notin> ss_keys seen')"
proof -
  from assms obtain n0 where
    k: "expand_keep m cur ([], seen) = Inr (n0, seen')" and
    s: "expand_step sy m seen' cur (n0, False) = Inr (next', fn)"
    by (auto simp add: expand_pass_def split: sum.splits prod.splits)
  from expand_keep_Inr [OF k] have ok: "statesOk m cur"
    and sk: "ss_keys seen' = ss_keys seen \<union> ss_keys cur"
    and nk: "ss_keys n0 \<subseteq> ss_keys cur" by (simp_all add: ss_keys_Nil)
  show "statesOk m cur" by (rule ok)
  show "ss_keys seen' = ss_keys seen \<union> ss_keys cur" by (rule sk)
  show "\<not> ss_keys next' \<subseteq> ss_keys seen'" if fn
    using expand_step_new [OF s] that by simp
  show "ss_keys next' \<subseteq> ss_keys cur" if "\<not> fn"
    using expand_step_same [of sy m seen' cur n0 False next'] s that nk by simp
  have "statesOk m n0" using nk ok by (auto simp add: statesOk_keys)
  then show "statesOk m next'" if "wellFormed m"
    using expand_step_statesOk [OF that s] by simp
  show "fn = (\<exists>(st, str)\<in>set cur. \<exists>t\<in>set (trans_list (state m ! st)).
                  isUsable sy t \<and> outputEmpty sy t \<and> dest t \<notin> ss_keys seen')"
    using expand_step_found [OF s] by simp
qed

lemma expand_pass_Inl:
  assumes "expand_pass sy m cur seen = Inl e"
  shows "(\<exists>s q q'. e = QueueConflict s q q') \<or> (\<exists>s. e = BadState s \<and> \<not> statesOk m cur)"
proof (cases "expand_keep m cur ([], seen)")
  case (Inl e')
  with assms have "e' = e" by (simp add: expand_pass_def)
  with Inl expand_keep_Inl [of m cur "[]" seen e] show ?thesis by simp
next
  case (Inr p)
  obtain n0 s0 where p: "p = (n0, s0)" by (cases p)
  from assms Inr have "expand_step sy m s0 cur (n0, False) = Inl e"
    by (auto simp add: expand_pass_def p split: sum.splits)
  from expand_step_Inl [OF this] show ?thesis .
qed

lemma expand_pass_bad:
  assumes "\<not> statesOk m cur"
  shows "\<exists>e. expand_pass sy m cur seen = Inl e"
proof (cases "expand_pass sy m cur seen")
  case (Inl e)
  then show ?thesis by blast
next
  case (Inr r)
  obtain a b c where "r = (a, b, c)" by (cases r)
  with Inr expand_pass_Inr(1) [of sy m cur seen a b c] assms show ?thesis by simp
qed

lemma expand_passes_enough:
  "card ({..<length (state m)} - (ss_keys seen \<union> ss_keys cur)) \<le> k \<Longrightarrow>
     \<exists>r. expand_passes (k + 2) sy m cur seen = Some r"
proof (induction k arbitrary: cur seen)
  case 0
  show ?case
  proof (cases "expand_pass sy m cur seen")
    case (Inl e)
    then show ?thesis by (simp add: numeral_2_eq_2)
  next
    case (Inr r)
    obtain next' seen' fn where r: "r = (next', seen', fn)" by (cases r)
    note p = Inr [unfolded r]
    show ?thesis
    proof (cases fn)
      case False
      with p show ?thesis by (simp add: numeral_2_eq_2)
    next
      case True
      have "\<not> statesOk m next'"
      proof
        assume ok: "statesOk m next'"
        from expand_pass_Inr(3) [OF p True] obtain x where
          x: "x \<in> ss_keys next'" "x \<notin> ss_keys seen'" by blast
        from x(1) ok have "x < length (state m)" by (auto simp add: statesOk_keys)
        with x(2) expand_pass_Inr(2) [OF p]
        have "x \<in> {..<length (state m)} - (ss_keys seen \<union> ss_keys cur)" by simp
        moreover from "0.prems" have "{..<length (state m)} - (ss_keys seen \<union> ss_keys cur) = {}"
          by simp
        ultimately show False by simp
      qed
      from expand_pass_bad [OF this] obtain e where "expand_pass sy m next' seen' = Inl e" by blast
      with p True show ?thesis by (simp add: numeral_2_eq_2)
    qed
  qed
next
  case (Suc k)
  show ?case
  proof (cases "expand_pass sy m cur seen")
    case (Inl e)
    then show ?thesis by simp
  next
    case (Inr r)
    obtain next' seen' fn where r: "r = (next', seen', fn)" by (cases r)
    note p = Inr [unfolded r]
    show ?thesis
    proof (cases fn)
      case False
      with p show ?thesis by simp
    next
      case True
      show ?thesis
      proof (cases "statesOk m next'")
        case False
        from expand_pass_bad [OF this] obtain e where "expand_pass sy m next' seen' = Inl e" by blast
        with p True show ?thesis by (simp add: numeral_2_eq_2)
      next
        case ok: True
        from expand_pass_Inr(3) [OF p True] obtain x where
          x: "x \<in> ss_keys next'" "x \<notin> ss_keys seen'" by blast
        from x(1) ok have xl: "x < length (state m)" by (auto simp add: statesOk_keys)
        let ?A = "{..<length (state m)} - (ss_keys seen' \<union> ss_keys next')"
        let ?B = "{..<length (state m)} - (ss_keys seen \<union> ss_keys cur)"
        have "?A \<subseteq> ?B" using expand_pass_Inr(2) [OF p] by auto
        moreover have "x \<in> ?B" "x \<notin> ?A" using x xl expand_pass_Inr(2) [OF p] by auto
        ultimately have "?A \<subset> ?B" by blast
        moreover have "finite ?B" by simp
        ultimately have "card ?A < card ?B" by (rule psubset_card_mono [rotated])
        with Suc.prems have "card ?A \<le> k" by simp
        from Suc.IH [OF this] obtain r' where "expand_passes (k + 2) sy m next' seen' = Some r'"
          by blast
        with p True show ?thesis by simp
      qed
    qed
  qed
qed

lemma expand_passes_loop:
  "expand_passes n sy m cur seen = Some r \<Longrightarrow> expand_loop sy m cur seen = Some r"
proof (induction n arbitrary: cur seen)
  case 0
  then show ?case by simp
next
  case (Suc n)
  show ?case
  proof (cases "expand_pass sy m cur seen")
    case (Inl e)
    with Suc.prems show ?thesis by (subst expand_loop.simps) simp
  next
    case (Inr p)
    obtain next' seen' fn where p: "p = (next', seen', fn)" by (cases p)
    show ?thesis
    proof (cases fn)
      case True
      with Suc.prems Inr have "expand_passes n sy m next' seen' = Some r" by (simp add: p)
      from Suc.IH [OF this] Inr True show ?thesis by (subst expand_loop.simps) (simp add: p)
    next
      case False
      with Suc.prems Inr show ?thesis by (subst expand_loop.simps) (simp add: p)
    qed
  qed
qed

lemma expand_loop_passes:
  "\<exists>n\<le>length (state m) + 2. \<exists>r. expand_passes n sy m cur seen = Some r \<and>
      expand_loop sy m cur seen = Some r"
proof -
  have "card ({..<length (state m)} - (ss_keys seen \<union> ss_keys cur)) \<le> card {..<length (state m)}"
    by (intro card_mono) auto
  then have "card ({..<length (state m)} - (ss_keys seen \<union> ss_keys cur)) \<le> length (state m)" by simp
  from expand_passes_enough [OF this] obtain r where
    r: "expand_passes (length (state m) + 2) sy m cur seen = Some r" by blast
  with expand_passes_loop [OF r] show ?thesis by blast
qed

lemma expand_passes_statesOk:
  "expand_passes n sy m cur seen = Some (Inr cur') \<Longrightarrow> statesOk m cur'"
proof (induction n arbitrary: cur seen)
  case 0
  then show ?case by simp
next
  case (Suc n)
  from Suc.prems obtain next' seen' fn where
    p: "expand_pass sy m cur seen = Inr (next', seen', fn)"
    by (auto split: sum.splits)
  show ?case
  proof (cases fn)
    case True
    with Suc.prems p have "expand_passes n sy m next' seen' = Some (Inr cur')" by simp
    then show ?thesis by (rule Suc.IH)
  next
    case False
    with Suc.prems p have c: "cur' = next'" by simp
    from expand_pass_Inr(1) [OF p] expand_pass_Inr(4) [OF p False]
    show ?thesis by (auto simp add: c statesOk_keys)
  qed
qed

lemma expand_passes_error:
  "expand_passes n sy m cur seen = Some (Inl e) \<Longrightarrow>
     (\<exists>s q q'. e = QueueConflict s q q') \<or> (\<exists>s. e = BadState s)"
proof (induction n arbitrary: cur seen)
  case 0
  then show ?case by simp
next
  case (Suc n)
  show ?case
  proof (cases "expand_pass sy m cur seen")
    case (Inl e')
    with Suc.prems have "e' = e" by simp
    with Inl expand_pass_Inl [of sy m cur seen e] show ?thesis by blast
  next
    case (Inr p)
    obtain next' seen' fn where p: "p = (next', seen', fn)" by (cases p)
    from Suc.prems Inr have "expand_passes n sy m next' seen' = Some (Inl e)"
      by (auto simp add: p split: if_splits)
    then show ?thesis by (rule Suc.IH)
  qed
qed

lemma expand_passes_conflict:
  "wellFormed m \<Longrightarrow> statesOk m cur \<Longrightarrow> expand_passes n sy m cur seen = Some (Inl e) \<Longrightarrow>
     \<exists>s q q'. e = QueueConflict s q q'"
proof (induction n arbitrary: cur seen)
  case 0
  then show ?case by simp
next
  case (Suc n)
  show ?case
  proof (cases "expand_pass sy m cur seen")
    case (Inl e')
    with Suc.prems(3) have "e' = e" by simp
    with Inl expand_pass_Inl [of sy m cur seen e] Suc.prems(2) show ?thesis by blast
  next
    case (Inr p)
    obtain next' seen' fn where p: "p = (next', seen', fn)" by (cases p)
    from Suc.prems(3) Inr have "expand_passes n sy m next' seen' = Some (Inl e)"
      by (auto simp add: p split: if_splits)
    moreover have "statesOk m next'" using expand_pass_Inr(5) [OF Inr [unfolded p] Suc.prems(1)] .
    ultimately show ?thesis using Suc.prems(1) by (intro Suc.IH)
  qed
qed

lemma expand_loop_cases:
  obtains n r where "expand_loop sy m cur seen = Some r" "expand_passes n sy m cur seen = Some r"
    "n \<le> length (state m) + 2"
  using expand_loop_passes [of m sy cur seen] by blast

lemma expand_results:
  shows expand_total: "\<exists>r. expand sy m d = Some r"
    and expand_statesOk: "expand sy m d = Some (Inr d1) \<Longrightarrow>
           statesOk m (current d1) \<and> outs d1 = outs d \<and> warnings d1 = warnings d"
    and expand_error: "expand sy m d = Some (Inl e) \<Longrightarrow>
           (\<exists>s q q'. e = QueueConflict s q q') \<or> (\<exists>s. e = BadState s)"
    and expand_conflict: "wellFormed m \<Longrightarrow> statesOk m (current d) \<Longrightarrow> expand sy m d = Some (Inl e) \<Longrightarrow>
           \<exists>s q q'. e = QueueConflict s q q'"
proof -
  obtain n r where l: "expand_loop sy m (current d) [] = Some r"
    and p: "expand_passes n sy m (current d) [] = Some r"
    by (rule expand_loop_cases)
  show "\<exists>r. expand sy m d = Some r"
    by (cases r) (simp_all add: expand_def l)
  show "statesOk m (current d1) \<and> outs d1 = outs d \<and> warnings d1 = warnings d"
    if "expand sy m d = Some (Inr d1)"
  proof -
    from that l obtain c where r: "r = Inr c" and d1: "d1 = d\<lparr>current := c\<rparr>"
      by (cases r) (auto simp add: expand_def)
    from expand_passes_statesOk [OF p [unfolded r]] show ?thesis by (simp add: d1)
  qed
  show "(\<exists>s q q'. e = QueueConflict s q q') \<or> (\<exists>s. e = BadState s)"
    if "expand sy m d = Some (Inl e)"
  proof -
    from that l have r: "r = Inl e" by (cases r) (auto simp add: expand_def)
    from expand_passes_error [OF p [unfolded r]] show ?thesis .
  qed
  show "\<exists>s q q'. e = QueueConflict s q q'"
    if "wellFormed m" "statesOk m (current d)" "expand sy m d = Some (Inl e)"
  proof -
    from that(3) l have r: "r = Inl e" by (cases r) (auto simp add: expand_def)
    from expand_passes_conflict [OF that(1,2) p [unfolded r]] show ?thesis .
  qed
qed

lemma expand_empty: "current d = [] \<Longrightarrow> expand sy m d = Some (Inr d)"
  by (simp add: expand_def expand_pass_def, subst expand_loop.simps, simp add: expand_pass_def)

section \<open>Properties of decodeSymbol\<close>

lemma ss_keys_empty: "ss_keys m = {} \<longleftrightarrow> m = []"
  by (simp add: ss_keys_def)

lemma decode_trans_keys:
  "decode_trans sy outSym str ts next = Inr next' \<Longrightarrow>
     ss_keys next' = ss_keys next \<union> dest ` {t \<in> set ts. isUsable sy t \<and> outp t = outSym}"
proof (induction ts arbitrary: "next")
  case Nil
  then show ?case by simp
next
  case (Cons t ts)
  show ?case
  proof (cases "isUsable sy t \<and> outp t = outSym")
    case True
    with Cons.prems have "decode_trans sy outSym str ts (ss_assign (dest t) (nextStr sy str t) next) = Inr next'"
      by (auto split: option.splits if_splits)
    from Cons.IH [OF this] True show ?thesis by (auto simp add: ss_keys_assign)
  next
    case False
    with Cons.prems have "decode_trans sy outSym str ts next = Inr next'" by auto
    from Cons.IH [OF this] False show ?thesis by auto
  qed
qed

lemma decode_trans_Inl:
  "decode_trans sy outSym str ts next = Inl e \<Longrightarrow> \<exists>s q q'. e = QueueConflict s q q'"
proof (induction ts arbitrary: "next")
  case Nil
  then show ?case by simp
next
  case (Cons t ts)
  show ?case
  proof (cases "\<exists>n1. decode_trans sy outSym str ts n1 = Inl e")
    case True
    then obtain n1 where "decode_trans sy outSym str ts n1 = Inl e" by blast
    then show ?thesis by (rule Cons.IH)
  next
    case False
    with Cons.prems show ?thesis by (auto split: if_splits option.splits)
  qed
qed

lemma decode_trans_none:
  "filter (\<lambda>t. isUsable sy t \<and> outp t = outSym) ts = [] \<Longrightarrow>
     decode_trans sy outSym str ts next = Inr next"
  by (induction ts) (auto split: if_splits)

lemma matching_Cons:
  "matching sy m ((st, str) # cur) outSym =
     map (\<lambda>t. ((st, str), t))
        (filter (\<lambda>t. isUsable sy t \<and> outp t = outSym) (trans_list (state m ! st)))
     @ matching sy m cur outSym"
  by (simp add: matching_def)

lemma decode_step_keys:
  "decode_step sy m outSym cur next = Inr next' \<Longrightarrow>
     statesOk m cur \<and>
     ss_keys next' = ss_keys next \<union> (\<lambda>(h, t). dest t) ` set (matching sy m cur outSym)"
proof (induction cur arbitrary: "next")
  case Nil
  then show ?case by (simp add: statesOk_Nil matching_def)
next
  case (Cons x cur)
  obtain st str where x: "x = (st, str)" by (cases x)
  from Cons.prems obtain n1 where st: "st < length (state m)" and
    t: "decode_trans sy outSym str (trans_list (state m ! st)) next = Inr n1" and
    r: "decode_step sy m outSym cur n1 = Inr next'"
    by (auto simp add: x stateAt_def split: if_splits sum.splits)
  from Cons.IH [OF r] have ok: "statesOk m cur" and
    k: "ss_keys next' = ss_keys n1 \<union> (\<lambda>(h, t). dest t) ` set (matching sy m cur outSym)" by simp_all
  have "statesOk m (x # cur)" using ok st by (simp add: x statesOk_Cons)
  moreover have "ss_keys next' = ss_keys next \<union> (\<lambda>(h, t). dest t) ` set (matching sy m (x # cur) outSym)"
    unfolding k decode_trans_keys [OF t] x matching_Cons by (auto simp add: image_Un image_image)
  ultimately show ?case by blast
qed

lemma decode_step_Inl:
  "decode_step sy m outSym cur next = Inl e \<Longrightarrow>
     (\<exists>s q q'. e = QueueConflict s q q') \<or> (\<exists>s. e = BadState s \<and> \<not> statesOk m cur)"
proof (induction cur arbitrary: "next")
  case Nil
  then show ?case by simp
next
  case (Cons x cur)
  obtain st str where x: "x = (st, str)" by (cases x)
  show ?case
  proof (cases "st < length (state m)")
    case False
    with Cons.prems show ?thesis by (auto simp add: x stateAt_def statesOk_Cons)
  next
    case True
    show ?thesis
    proof (cases "decode_trans sy outSym str (trans_list (state m ! st)) next")
      case (Inl e')
      with Cons.prems True have "e' = e" by (simp add: x stateAt_def)
      with Inl decode_trans_Inl [of sy outSym str _ "next" e] show ?thesis by blast
    next
      case (Inr n1)
      with Cons.prems True have "decode_step sy m outSym cur n1 = Inl e" by (simp add: x stateAt_def)
      from Cons.IH [OF this] show ?thesis by (auto simp add: x statesOk_Cons)
    qed
  qed
qed

lemma decode_step_none:
  "statesOk m cur \<Longrightarrow> matching sy m cur outSym = [] \<Longrightarrow> decode_step sy m outSym cur next = Inr next"
proof (induction cur)
  case Nil
  then show ?case by simp
next
  case (Cons x cur)
  obtain st str where x: "x = (st, str)" by (cases x)
  from Cons.prems have st: "st < length (state m)" and ok: "statesOk m cur"
    and f: "filter (\<lambda>t. isUsable sy t \<and> outp t = outSym) (trans_list (state m ! st)) = []"
    and mt: "matching sy m cur outSym = []"
    by (simp_all add: x statesOk_Cons matching_Cons)
  from Cons.IH [OF ok mt] decode_trans_none [OF f] st show ?case by (simp add: x stateAt_def)
qed

lemma decode_step_statesOk:
  assumes "wellFormed m" "decode_step sy m outSym cur [] = Inr next'"
  shows "statesOk m next'"
proof -
  from decode_step_keys [OF assms(2)] have ok: "statesOk m cur" and
    k: "ss_keys next' = (\<lambda>(h, t). dest t) ` set (matching sy m cur outSym)"
    by (simp_all add: ss_keys_Nil)
  have "dest t < length (state m)" if "(h, t) \<in> set (matching sy m cur outSym)" for h t
  proof -
    from that obtain st str where "(st, str) \<in> set cur" "t \<in> set (trans_list (state m ! st))"
      by (auto simp add: matching_def)
    moreover from this(1) ok have "st < length (state m)" by (auto simp add: statesOk_def list_all_iff)
    ultimately show ?thesis using wellFormed_dest [OF assms(1)] by blast
  qed
  then show ?thesis unfolding statesOk_keys k by auto
qed

lemma resolve_ok: "statesOk m (current d) \<Longrightarrow> \<exists>d'. resolve m d = Inr d'"
  by (auto simp add: resolve_def stateAt_def statesOk_Cons split: list.splits)

section \<open>Behaviour of the streaming decoder\<close>

text \<open>
  C1 (as amended): while \<open>current\<close> is not empty and every queue in it is non-empty and begins
  with the same input symbol \<open>c\<close>, \<^verbatim>\<open>shiftResolvedSymbols\<close> writes \<open>c\<close> and pops it from
  every queue; it stops, leaving the decoder as it is, as soon as no symbol is the front of
  every queue. What it writes in all is a common prefix of every queue, which it removes
  from each of them.
\<close>

theorem shiftResolvedSymbols_commits:
  "(frontOfAll c (current d) \<longrightarrow>
      shiftResolvedSymbols d
        = shiftResolvedSymbols ((dec_write d [c])\<lparr>current := popAll (current d)\<rparr>)) \<and>
   ((\<forall>c'. \<not> frontOfAll c' (current d)) \<longrightarrow> shiftResolvedSymbols d = d) \<and>
   \<not> frontOfAll c (current (shiftResolvedSymbols d)) \<and>
   (\<exists>p. outs (shiftResolvedSymbols d) = outs d @ p \<and>
        warnings (shiftResolvedSymbols d) = warnings d \<and>
        list_all (\<lambda>(st, str). take (length p) str = p) (current d) \<and>
        current (shiftResolvedSymbols d)
          = map (\<lambda>(st, str). (st, drop (length p) str)) (current d))"
proof (intro conjI impI)
  assume "frontOfAll c (current d)"
  then show "shiftResolvedSymbols d
        = shiftResolvedSymbols ((dec_write d [c])\<lparr>current := popAll (current d)\<rparr>)"
    by (rule shift_step)
next
  assume "\<forall>c'. \<not> frontOfAll c' (current d)"
  then show "shiftResolvedSymbols d = d" by (intro shift_stop) blast
next
  show "\<not> frontOfAll c (current (shiftResolvedSymbols d))" by (rule shift_final)
next
  show "\<exists>p. outs (shiftResolvedSymbols d) = outs d @ p \<and>
        warnings (shiftResolvedSymbols d) = warnings d \<and>
        list_all (\<lambda>(st, str). take (length p) str = p) (current d) \<and>
        current (shiftResolvedSymbols d)
          = map (\<lambda>(st, str). (st, drop (length p) str)) (current d)"
    by (rule shift_prefix)
qed

theorem shiftResolvedSymbols_commits_witness:
  "frontOfAll CHR ''1'' [(0, ''10''), (1, ''11'')] \<and>
   shiftResolvedSymbols \<lparr>current = [(0, ''10''), (1, ''11'')], outs = [], warnings = []\<rparr>
     = \<lparr>current = [(0, ''0''), (1, ''1'')], outs = ''1'', warnings = []\<rparr>"
proof -
  let ?d = "\<lparr>current = [(0, ''10''), (1, ''11'')], outs = [], warnings = []\<rparr>"
  let ?d1 = "\<lparr>current = [(0, ''0''), (1, ''1'')], outs = ''1'', warnings = []\<rparr>"
  have f: "frontOfAll CHR ''1'' (current ?d)" by (simp add: frontOfAll_def)
  have n: "\<forall>c'. \<not> frontOfAll c' (current ?d1)" by (auto simp add: frontOfAll_def)
  have e: "(dec_write ?d ''1'')\<lparr>current := popAll (current ?d)\<rparr> = ?d1"
    by (simp add: dec_write_def popAll_def)
  from shiftResolvedSymbols_commits [of "CHR ''1''" ?d] f
  have "shiftResolvedSymbols ?d = shiftResolvedSymbols ?d1" unfolding e by blast
  moreover from shiftResolvedSymbols_commits [of "CHR ''1''" ?d1] n
  have "shiftResolvedSymbols ?d1 = ?d1" by blast
  ultimately show ?thesis using f by simp
qed

text \<open>
  With the hypotheses \<open>{0: "1", 1: ""}\<close> every non-empty queue begins with 1 and one queue
  is non-empty, yet nothing is written and nothing is popped: the empty queue blocks.
\<close>

theorem shiftResolvedSymbols_empty_queue_blocks:
  "frontOfNonempty CHR ''1'' [(0, ''1''), (1, [])] \<and>
   shiftResolvedSymbols \<lparr>current = [(0, ''1''), (1, [])], outs = [], warnings = []\<rparr>
     = \<lparr>current = [(0, ''1''), (1, [])], outs = [], warnings = []\<rparr>"
  by (subst shiftResolvedSymbols.simps) (simp add: frontOfNonempty_def scanStart_def)

lemma collectEnds_ok:
  "statesOk m cur \<Longrightarrow> collectEnds m cur acc = Inr (acc @ endHypotheses m cur)"
proof (induction cur arbitrary: acc)
  case Nil
  then show ?case by (simp add: endHypotheses_def)
next
  case (Cons x cur)
  obtain st str where x: "x = (st, str)" by (cases x)
  from Cons.prems have st: "st < length (state m)" and ok: "statesOk m cur"
    by (simp_all add: x statesOk_Cons)
  from Cons.IH [OF ok] st show ?case by (simp add: x stateAt_def endHypotheses_def)
qed

lemma flush_single:
  "current d = [(st, str)] \<Longrightarrow> flush d (st, str) = d\<lparr>outs := outs d @ str, current := [(st, [])]\<rparr>"
  by (cases "str = []") (simp_all add: flush_def dec_write_def)

lemma flush_outs:
  "outs (flush d (st, str)) = outs d @ str \<and> warnings (flush d (st, str)) = warnings d"
  by (cases "str = []") (simp_all add: flush_def dec_write_def)

lemma close_cases:
  assumes ex: "expand sy m d = Some (Inr d1)"
  shows "close sy m d = Some (Inr
           ((if length (endHypotheses m (current d1)) = 1 then flush d1 (hd (endHypotheses m (current d1)))
             else if length (endHypotheses m (current d1)) > 1 then
               d1\<lparr>warnings := warnings d1 @ UnresolvedEndStates (length (endHypotheses m (current d1)))
                       # map (\<lambda>(st, str). StateQueue st str) (endHypotheses m (current d1))\<rparr>
             else if length (current d1) > 1 then
               showQueue (d1\<lparr>warnings := warnings d1 @ [UnresolvedStates (length (current d1))]\<rparr>)
             else d1)
            \<lparr>current := []\<rparr>))"
proof (cases "current d = []")
  case True
  with ex have "d1 = d" by (simp add: expand_empty)
  with True show ?thesis by (simp add: close_def endHypotheses_def)
next
  case False
  from expand_statesOk [OF ex] have "statesOk m (current d1)" by simp
  from collectEnds_ok [OF this, of "[]"] False ex show ?thesis
    by (simp add: close_def)
qed

lemma eval_defs:
  "stateAt m s = (if s < length (state m) then Inr (state m ! s) else Inl (BadState s))"
  "isUsable sy t \<longleftrightarrow>
     inp t = MachineNull sy \<or> inp t = MachineBit0 sy \<or> inp t = MachineBit1 sy
     \<or> inp t = MachineEOF sy \<or> inp t = MachineSOF sy \<or> isControl sy (inp t)"
  "outputEmpty sy t \<longleftrightarrow> outp t = MachineNull sy"
  "inputEmpty sy t \<longleftrightarrow> inp t = MachineNull sy"
  "nextStr sy str t = (if \<not> inputEmpty sy t then str @ [inp t] else str)"
  "ss_insert k v mp = (case map_of mp k of None \<Rightarrow> ss_assign k v mp | Some _ \<Rightarrow> mp)"
  by (simp_all add: stateAt_def isUsable_def outputEmpty_def inputEmpty_def nextStr_def ss_insert_def)

lemma expand_Fork:
  "expand sampleSymbols machineFork \<lparr>current = [(0, [])], outs = [], warnings = []\<rparr>
     = Some (Inr \<lparr>current = [(1, ''1'')], outs = [], warnings = []\<rparr>)"
proof -
  have "expand_passes 2 sampleSymbols machineFork [(0, [])] [] = Some (Inr [(1, ''1'')])"
    by (simp add: numeral_2_eq_2 expand_pass_def eval_defs machineFork_def sampleSymbols_def)
  from expand_passes_loop [OF this] show ?thesis by (simp add: expand_def)
qed

lemma expand_Hold_1:
  "expand sampleSymbols machineHold \<lparr>current = [(1, ''1'')], outs = [], warnings = []\<rparr>
     = Some (Inr \<lparr>current = [(1, ''1'')], outs = [], warnings = []\<rparr>)"
proof -
  have "expand_passes 1 sampleSymbols machineHold [(1, ''1'')] [] = Some (Inr [(1, ''1'')])"
    by (simp add: expand_pass_def eval_defs machineHold_def sampleSymbols_def)
  from expand_passes_loop [OF this] show ?thesis by (simp add: expand_def)
qed

lemma expand_Hold_2:
  "expand sampleSymbols machineHold \<lparr>current = [(2, q)], outs = os, warnings = []\<rparr>
     = Some (Inr \<lparr>current = [(2, q)], outs = os, warnings = []\<rparr>)"
proof -
  have "expand_passes 1 sampleSymbols machineHold [(2, q)] [] = Some (Inr [(2, q)])"
    by (simp add: expand_pass_def eval_defs machineHold_def sampleSymbols_def)
  from expand_passes_loop [OF this] show ?thesis by (simp add: expand_def)
qed

lemma expand_Chain:
  "expand sampleSymbols machineChain \<lparr>current = [(0, [])], outs = [], warnings = []\<rparr>
     = Some (Inr \<lparr>current = [(2, ''01'')], outs = [], warnings = []\<rparr>)"
proof -
  have "expand_passes 3 sampleSymbols machineChain [(0, [])] [] = Some (Inr [(2, ''01'')])"
    by (simp add: numeral_3_eq_3 expand_pass_def eval_defs machineChain_def sampleSymbols_def)
  from expand_passes_loop [OF this] show ?thesis by (simp add: expand_def)
qed

text \<open>
  C2: on a machine whose start state has two null-output transitions to one state, reading
  bit 0 and bit 1, the constructor's \<^verbatim>\<open>expand\<close> puts the queue \<open>0\<close> and then the queue \<open>1\<close>
  on that state within one pass and returns with the second one: no \<^verbatim>\<open>QueueConflict\<close>.
\<close>

theorem expand_keeps_one_of_two_queues:
  "Decoder_init sampleSymbols machineFork
     = Some (Inr \<lparr>current = [(1, ''1'')], outs = [], warnings = []\<rparr>)"
proof -
  have "startState machineFork = 0" by (simp add: machineFork_def)
  then show ?thesis by (simp only: Decoder_init_def expand_Fork)
qed

lemma decodeSymbol_resolve:
  assumes "decode_step sy m outSym (current d) [] = Inr nxt" and "nxt \<noteq> []"
    and "expand sy m (d\<lparr>current := nxt\<rparr>) = Some (Inr d1)"
  shows "decodeSymbol sy m d outSym = Some (resolve m d1)"
  using assms by (simp add: decodeSymbol_def)

text \<open>
  C3 (as amended): once \<^verbatim>\<open>decodeSymbol\<close> has built a non-empty successor set and \<^verbatim>\<open>expand\<close>
  has returned, a single surviving hypothesis is flushed to the writer if its state exits
  with input and is left as it is if its state does not; \<^verbatim>\<open>shiftResolvedSymbols\<close> runs
  when the number of hypotheses is not one.
\<close>

theorem decodeSymbol_resolution:
  assumes "decode_step sy m outSym (current d) [] = Inr nxt" and "nxt \<noteq> []"
    and "expand sy m (d\<lparr>current := nxt\<rparr>) = Some (Inr d1)"
  shows "(\<forall>st str. current d1 = [(st, str)] \<and> exitsWithInput (state m ! st) \<longrightarrow>
            decodeSymbol sy m d outSym
              = Some (Inr (d1\<lparr>outs := outs d1 @ str, current := [(st, [])]\<rparr>))) \<and>
         (\<forall>st str. current d1 = [(st, str)] \<and> \<not> exitsWithInput (state m ! st) \<longrightarrow>
            decodeSymbol sy m d outSym = Some (Inr d1)) \<and>
         (length (current d1) \<noteq> 1 \<longrightarrow>
            decodeSymbol sy m d outSym = Some (Inr (shiftResolvedSymbols d1)))"
proof -
  have ds: "decodeSymbol sy m d outSym = Some (resolve m d1)"
    using assms by (rule decodeSymbol_resolve)
  from expand_statesOk [OF assms(3)] have ok: "statesOk m (current d1)" by simp
  show ?thesis
  proof (intro conjI allI impI)
    fix st str
    assume a: "current d1 = [(st, str)] \<and> exitsWithInput (state m ! st)"
    with ok have "st < length (state m)" by (simp add: statesOk_Cons)
    with a show "decodeSymbol sy m d outSym
        = Some (Inr (d1\<lparr>outs := outs d1 @ str, current := [(st, [])]\<rparr>))"
      by (simp add: ds resolve_def stateAt_def flush_single)
  next
    fix st str
    assume a: "current d1 = [(st, str)] \<and> \<not> exitsWithInput (state m ! st)"
    with ok have "st < length (state m)" by (simp add: statesOk_Cons)
    with a show "decodeSymbol sy m d outSym = Some (Inr d1)"
      by (simp add: ds resolve_def stateAt_def)
  next
    assume "length (current d1) \<noteq> 1"
    then show "decodeSymbol sy m d outSym = Some (Inr (shiftResolvedSymbols d1))"
      by (auto simp add: ds resolve_def split: list.splits)
  qed
qed

theorem decodeSymbol_resolution_witness:
  "decode_step sampleSymbols machineHold CHR ''G'' [(2, ''1'')] [] = Inr [(2, ''10'')] \<and>
   expand sampleSymbols machineHold \<lparr>current = [(2, ''10'')], outs = [], warnings = []\<rparr>
     = Some (Inr \<lparr>current = [(2, ''10'')], outs = [], warnings = []\<rparr>) \<and>
   exitsWithInput (state machineHold ! 2) \<and>
   decodeSymbol sampleSymbols machineHold
       \<lparr>current = [(2, ''1'')], outs = [], warnings = []\<rparr> CHR ''G''
     = Some (Inr \<lparr>current = [(2, [])], outs = ''10'', warnings = []\<rparr>)"
proof -
  let ?d = "\<lparr>current = [(2, ''1'')], outs = [], warnings = []\<rparr>"
  let ?d1 = "\<lparr>current = [(2, ''10'')], outs = [], warnings = []\<rparr>"
  have a: "decode_step sampleSymbols machineHold CHR ''G'' (current ?d) [] = Inr [(2, ''10'')]"
    by (simp add: eval_defs machineHold_def sampleSymbols_def)
  have b: "[(2::nat, ''10'')] \<noteq> []" by simp
  have c: "expand sampleSymbols machineHold (?d\<lparr>current := [(2, ''10'')]\<rparr>) = Some (Inr ?d1)"
    by (simp add: expand_Hold_2)
  have e: "exitsWithInput (state machineHold ! 2)" by (simp add: machineHold_def)
  from decodeSymbol_resolution [OF a b c] e
  have "decodeSymbol sampleSymbols machineHold ?d CHR ''G''
      = Some (Inr (?d1\<lparr>outs := outs ?d1 @ ''10'', current := [(2, [])]\<rparr>))" by simp
  with a c e show ?thesis by simp
qed

text \<open>
  On \<open>machineHold\<close>, decoding \<open>A\<close> leaves the single hypothesis \<open>{1: "1"}\<close>, whose state
  does not exit with input: nothing is written, whereas \<^verbatim>\<open>shiftResolvedSymbols\<close> would have
  written 1.
\<close>

theorem decodeSymbol_holds_single_hypothesis:
  "expand sampleSymbols machineHold \<lparr>current = [(1, ''1'')], outs = [], warnings = []\<rparr>
     = Some (Inr \<lparr>current = [(1, ''1'')], outs = [], warnings = []\<rparr>) \<and>
   \<not> exitsWithInput (state machineHold ! 1) \<and>
   decodeSymbol sampleSymbols machineHold
       \<lparr>current = [(0, [])], outs = [], warnings = []\<rparr> CHR ''A''
     = Some (Inr \<lparr>current = [(1, ''1'')], outs = [], warnings = []\<rparr>) \<and>
   shiftResolvedSymbols \<lparr>current = [(1, ''1'')], outs = [], warnings = []\<rparr>
     = \<lparr>current = [(1, [])], outs = ''1'', warnings = []\<rparr>"
proof -
  let ?d0 = "\<lparr>current = [(0, [])], outs = [], warnings = []\<rparr>"
  have 1: "decode_step sampleSymbols machineHold CHR ''A'' (current ?d0) [] = Inr [(1, ''1'')]"
    by (simp add: eval_defs machineHold_def sampleSymbols_def)
  have ex1: "expand sampleSymbols machineHold (?d0\<lparr>current := [(1, ''1'')]\<rparr>)
      = Some (Inr \<lparr>current = [(1, ''1'')], outs = [], warnings = []\<rparr>)"
    using expand_Hold_1 by simp
  have 2: "\<not> exitsWithInput (state machineHold ! 1)" by (simp add: machineHold_def)
  have 3: "resolve machineHold \<lparr>current = [(1, ''1'')], outs = [], warnings = []\<rparr>
      = Inr \<lparr>current = [(1, ''1'')], outs = [], warnings = []\<rparr>"
    by (simp add: resolve_def stateAt_def machineHold_def)
  have 4: "decodeSymbol sampleSymbols machineHold
       \<lparr>current = [(0, [])], outs = [], warnings = []\<rparr> CHR ''A''
     = Some (Inr \<lparr>current = [(1, ''1'')], outs = [], warnings = []\<rparr>)"
    using decodeSymbol_resolve [OF 1 _ ex1] 3 by simp
  have 5: "shiftResolvedSymbols \<lparr>current = [(1, ''1'')], outs = [], warnings = []\<rparr>
     = \<lparr>current = [(1, [])], outs = ''1'', warnings = []\<rparr>"
    by (subst shiftResolvedSymbols.simps, simp add: scanStart_def dec_write_def popAll_def,
        subst shiftResolvedSymbols.simps, simp add: scanStart_def)
  from expand_Hold_1 2 4 5 show ?thesis by simp
qed

text \<open>
  C4: \<^verbatim>\<open>close\<close> runs \<^verbatim>\<open>expand\<close> and collects the hypotheses whose state is an end state.
  Once \<^verbatim>\<open>expand\<close> has returned, \<^verbatim>\<open>close\<close> returns too, with no hypothesis left: with
  exactly one end-state hypothesis its queue is written; with more than one, or with none
  and more than one hypothesis, the decoder writes nothing and warns with the count and
  the states and queues; otherwise it writes nothing and does not warn.
\<close>

theorem close_resolution:
  assumes "expand sy m d = Some (Inr d1)"
  shows "\<exists>d'. close sy m d = Some (Inr d') \<and> current d' = [] \<and>
           (length (endHypotheses m (current d1)) = 1 \<longrightarrow>
              outs d' = outs d @ snd (hd (endHypotheses m (current d1))) \<and>
              warnings d' = warnings d) \<and>
           (length (endHypotheses m (current d1)) > 1 \<longrightarrow>
              outs d' = outs d \<and>
              warnings d' = warnings d
                @ UnresolvedEndStates (length (endHypotheses m (current d1)))
                  # map (\<lambda>(st, str). StateQueue st str) (endHypotheses m (current d1))) \<and>
           (endHypotheses m (current d1) = [] \<and> length (current d1) > 1 \<longrightarrow>
              outs d' = outs d \<and>
              warnings d' = warnings d
                @ UnresolvedStates (length (current d1))
                  # map (\<lambda>(st, str). StateQueue st str) (current d1)) \<and>
           (endHypotheses m (current d1) = [] \<and> length (current d1) \<le> 1 \<longrightarrow>
              outs d' = outs d \<and> warnings d' = warnings d)"
proof -
  let ?ends = "endHypotheses m (current d1)"
  from expand_statesOk [OF assms] have o: "outs d1 = outs d" and w: "warnings d1 = warnings d"
    by simp_all
  note c = close_cases [OF assms]
  have split: thesis if one: "length ?ends = 1 \<Longrightarrow> thesis" and many: "length ?ends > 1 \<Longrightarrow> thesis"
    and none: "?ends = [] \<Longrightarrow> length (current d1) > 1 \<Longrightarrow> thesis"
    and rest: "?ends = [] \<Longrightarrow> length (current d1) \<le> 1 \<Longrightarrow> thesis" for thesis
  proof -
    have "length ?ends = 1 \<or> length ?ends > 1 \<or> ?ends = []" by (cases ?ends) auto
    moreover have "length (current d1) > 1 \<or> length (current d1) \<le> 1" by linarith
    ultimately show thesis using one many none rest by blast
  qed
  consider (one) "length ?ends = 1" | (many) "length ?ends > 1"
    | (none) "?ends = []" "length (current d1) > 1" | (rest) "?ends = []" "length (current d1) \<le> 1"
    by (rule split)
  then show ?thesis
  proof cases
    case one
    then obtain st str where e: "?ends = [(st, str)]"
      by (cases ?ends) (auto simp add: length_Suc_conv)
    have "close sy m d = Some (Inr ((flush d1 (st, str))\<lparr>current := []\<rparr>))"
      using c by (simp add: e)
    then show ?thesis using flush_outs [of d1 st str] by (simp add: e o w)
  next
    case many
    then have "close sy m d = Some (Inr
        (d1\<lparr>warnings := warnings d1 @ UnresolvedEndStates (length ?ends)
                       # map (\<lambda>(st, str). StateQueue st str) ?ends, current := []\<rparr>))"
      using c by simp
    moreover have "?ends \<noteq> []" using many by auto
    ultimately show ?thesis using many by (simp add: o w)
  next
    case none
    then have "close sy m d = Some (Inr
        ((showQueue (d1\<lparr>warnings := warnings d1 @ [UnresolvedStates (length (current d1))]\<rparr>))
           \<lparr>current := []\<rparr>))"
      using c by simp
    then show ?thesis using none by (simp add: o w showQueue_def)
  next
    case rest
    then have "close sy m d = Some (Inr (d1\<lparr>current := []\<rparr>))"
      using c by simp
    then show ?thesis using rest by (simp add: o w)
  qed
qed

lemma expand_Hold_01:
  "expand sampleSymbols machineHold \<lparr>current = [(0, ''0''), (1, ''1'')], outs = os, warnings = []\<rparr>
     = Some (Inr \<lparr>current = [(0, ''0''), (1, ''1'')], outs = os, warnings = []\<rparr>)"
proof -
  have "expand_passes 1 sampleSymbols machineHold [(0, ''0''), (1, ''1'')] []
      = Some (Inr [(0, ''0''), (1, ''1'')])"
    by (simp add: expand_pass_def eval_defs machineHold_def sampleSymbols_def)
  from expand_passes_loop [OF this] show ?thesis by (simp add: expand_def)
qed

theorem close_resolution_witness:
  "expand sampleSymbols machineHold \<lparr>current = [(2, ''01'')], outs = ''1'', warnings = []\<rparr>
     = Some (Inr \<lparr>current = [(2, ''01'')], outs = ''1'', warnings = []\<rparr>) \<and>
   close sampleSymbols machineHold \<lparr>current = [(2, ''01'')], outs = ''1'', warnings = []\<rparr>
     = Some (Inr \<lparr>current = [], outs = ''101'', warnings = []\<rparr>) \<and>
   close sampleSymbols machineHold \<lparr>current = [(0, ''0''), (1, ''1'')], outs = ''1'', warnings = []\<rparr>
     = Some (Inr \<lparr>current = [], outs = ''1'',
          warnings = [UnresolvedStates 2, StateQueue 0 ''0'', StateQueue 1 ''1'']\<rparr>)"
proof -
  let ?d = "\<lparr>current = [(2, ''01'')], outs = ''1'', warnings = []\<rparr>"
  let ?e = "\<lparr>current = [(0, ''0''), (1, ''1'')], outs = ''1'', warnings = []\<rparr>"
  have 1: "expand sampleSymbols machineHold ?d = Some (Inr ?d)" by (rule expand_Hold_2)
  have 2: "expand sampleSymbols machineHold ?e = Some (Inr ?e)" by (rule expand_Hold_01)
  have 3: "endHypotheses machineHold (current ?d) = [(2, ''01'')]"
    by (simp add: endHypotheses_def machineHold_def)
  have 4: "endHypotheses machineHold (current ?e) = []"
    by (simp add: endHypotheses_def machineHold_def)
  from close_resolution [OF 1] obtain d' where
    "close sampleSymbols machineHold ?d = Some (Inr d')" "current d' = []"
    "outs d' = ''101''" "warnings d' = []"
    unfolding 3 by auto
  then have 5: "close sampleSymbols machineHold ?d
      = Some (Inr \<lparr>current = [], outs = ''101'', warnings = []\<rparr>)"
    by (cases d') simp
  from close_resolution [OF 2] obtain e' where
    "close sampleSymbols machineHold ?e = Some (Inr e')" "current e' = []"
    "outs e' = ''1''" "warnings e' = [UnresolvedStates 2, StateQueue 0 ''0'', StateQueue 1 ''1'']"
    unfolding 4 by auto
  then have 6: "close sampleSymbols machineHold ?e
      = Some (Inr \<lparr>current = [], outs = ''1'',
          warnings = [UnresolvedStates 2, StateQueue 0 ''0'', StateQueue 1 ''1'']\<rparr>)"
    by (cases e') simp
  from 1 5 6 show ?thesis by simp
qed

text \<open>
  C5 (as amended): when every hypothesis names a state of the machine, \<^verbatim>\<open>decodeSymbol (o)\<close>
  fails with \<^verbatim>\<open>CannotDecode (o)\<close> if and only if no hypothesis has a usable outgoing
  transition with output \<open>o\<close>. When there is such a transition (and every transition of the
  machine leads to one of its states), \<^verbatim>\<open>decodeSymbol\<close> either returns or fails with
  \<^verbatim>\<open>QueueConflict\<close>.
\<close>

theorem decodeSymbol_CannotDecode:
  assumes "statesOk m (current d)"
  shows "(decodeSymbol sy m d outSym = Some (Inl (CannotDecode outSym))
            \<longleftrightarrow> matching sy m (current d) outSym = []) \<and>
         (matching sy m (current d) outSym \<noteq> [] \<longrightarrow>
            (\<forall>c. decodeSymbol sy m d outSym \<noteq> Some (Inl (CannotDecode c)))) \<and>
         (wellFormed m \<and> matching sy m (current d) outSym \<noteq> [] \<longrightarrow>
            (\<exists>d'. decodeSymbol sy m d outSym = Some (Inr d')) \<or>
            (\<exists>s q q'. decodeSymbol sy m d outSym = Some (Inl (QueueConflict s q q'))))"
proof (cases "decode_step sy m outSym (current d) []")
  case (Inl e)
  then have ds: "decodeSymbol sy m d outSym = Some (Inl e)" by (simp add: decodeSymbol_def)
  from decode_step_Inl [OF Inl] assms obtain s q q' where e: "e = QueueConflict s q q'" by blast
  have "matching sy m (current d) outSym \<noteq> []"
    using decode_step_none [OF assms, of sy outSym "[]"] Inl by auto
  then show ?thesis by (simp add: ds e)
next
  case (Inr nxt)
  from decode_step_keys [OF Inr]
  have k: "ss_keys nxt = (\<lambda>(h, t). dest t) ` set (matching sy m (current d) outSym)"
    by (simp add: ss_keys_Nil)
  show ?thesis
  proof (cases "matching sy m (current d) outSym = []")
    case True
    with k have "nxt = []" by (simp add: ss_keys_empty [symmetric])
    with Inr True show ?thesis by (simp add: decodeSymbol_def)
  next
    case False
    with k have ne: "nxt \<noteq> []" by (auto simp add: ss_keys_empty [symmetric])
    obtain r where r: "expand sy m (d\<lparr>current := nxt\<rparr>) = Some r"
      using expand_total by blast
    show ?thesis
    proof (cases r)
      case (Inl e)
      with r Inr ne have ds: "decodeSymbol sy m d outSym = Some (Inl e)"
        by (simp add: decodeSymbol_def)
      from expand_error [OF r [unfolded Inl]] have n: "\<And>c. e \<noteq> CannotDecode c" by auto
      have "\<exists>s q q'. e = QueueConflict s q q'" if "wellFormed m"
      proof -
        from decode_step_statesOk [OF that Inr] have "statesOk m (current (d\<lparr>current := nxt\<rparr>))"
          by simp
        from expand_conflict [OF that this r [unfolded Inl]] show ?thesis .
      qed
      with n False show ?thesis by (auto simp add: ds)
    next
      case (Inr d1)
      note ex = r [unfolded Inr]
      from expand_statesOk [OF ex] have "statesOk m (current d1)" by simp
      from resolve_ok [OF this] obtain d' where "resolve m d1 = Inr d'" by blast
      with decodeSymbol_resolve [OF \<open>decode_step sy m outSym (current d) [] = Inr nxt\<close> ne ex]
      have "decodeSymbol sy m d outSym = Some (Inr d')" by simp
      with False show ?thesis by simp
    qed
  qed
qed

theorem decodeSymbol_CannotDecode_witness:
  "statesOk machineHold [(0, [])] \<and>
   matching sampleSymbols machineHold [(0, [])] CHR ''C'' = [] \<and>
   decodeSymbol sampleSymbols machineHold \<lparr>current = [(0, [])], outs = [], warnings = []\<rparr> CHR ''C''
     = Some (Inl (CannotDecode CHR ''C''))"
proof -
  let ?d = "\<lparr>current = [(0, [])], outs = [], warnings = []\<rparr>"
  have ok: "statesOk machineHold (current ?d)" by (simp add: statesOk_def machineHold_def)
  have mt: "matching sampleSymbols machineHold (current ?d) CHR ''C'' = []"
    by (simp add: matching_def machineHold_def)
  from decodeSymbol_CannotDecode [OF ok, of sampleSymbols "CHR ''C''"] mt ok
  show ?thesis by simp
qed

text \<open>
  On \<open>machineClash\<close> two usable transitions with output \<open>A\<close> leave the start state, and
  \<^verbatim>\<open>decodeSymbol\<close> aborts all the same, with \<^verbatim>\<open>QueueConflict\<close>.
\<close>

theorem decodeSymbol_aborts_with_QueueConflict:
  "matching sampleSymbols machineClash [(0, [])] CHR ''A''
     = [((0, []), \<lparr>inp = CHR ''0'', outp = CHR ''A'', dest = 1\<rparr>),
        ((0, []), \<lparr>inp = CHR ''1'', outp = CHR ''A'', dest = 1\<rparr>)] \<and>
   decodeSymbol sampleSymbols machineClash \<lparr>current = [(0, [])], outs = [], warnings = []\<rparr> CHR ''A''
     = Some (Inl (QueueConflict 1 ''0'' ''1''))"
  by (simp add: matching_def decodeSymbol_def eval_defs machineClash_def sampleSymbols_def)

text \<open>
  C6: for a machine whose null-output transitions between non-emitting states form no
  cycle, \<^verbatim>\<open>expand\<close> terminates: the \<^verbatim>\<open>do\<close> loop returns after at most
  \<open>nStates + 2\<close> passes, from any hypothesis set and any \<open>seen\<close>. A pass is the last one
  exactly when no usable null-output transition out of a current hypothesis leads to a state
  that is neither in \<open>seen\<close> nor in \<open>current\<close>; otherwise the loop goes on with the new
  hypothesis set.
\<close>

theorem expand_terminates:
  assumes "nullAcyclic sy m"
  shows "(\<exists>n\<le>length (state m) + 2. \<exists>r.
            expand_passes n sy m cur seen = Some r \<and> expand_loop sy m cur seen = Some r) \<and>
         (\<exists>r. expand sy m d = Some r) \<and>
         (\<forall>nxt seen' fn. expand_pass sy m cur seen = Inr (nxt, seen', fn) \<longrightarrow>
            fn = (\<exists>(st, str)\<in>set cur. \<exists>t\<in>set (trans_list (state m ! st)).
                    isUsable sy t \<and> outputEmpty sy t \<and> dest t \<notin> ss_keys seen \<union> ss_keys cur) \<and>
            expand_loop sy m cur seen
              = (if fn then expand_loop sy m nxt seen' else Some (Inr nxt)))"
proof (intro conjI allI impI)
  show "\<exists>n\<le>length (state m) + 2. \<exists>r.
            expand_passes n sy m cur seen = Some r \<and> expand_loop sy m cur seen = Some r"
    by (rule expand_loop_passes)
next
  show "\<exists>r. expand sy m d = Some r" by (rule expand_total)
next
  fix nxt seen' fn
  assume p: "expand_pass sy m cur seen = Inr (nxt, seen', fn)"
  from expand_pass_Inr(6) [OF p] expand_pass_Inr(2) [OF p]
  show "fn = (\<exists>(st, str)\<in>set cur. \<exists>t\<in>set (trans_list (state m ! st)).
                    isUsable sy t \<and> outputEmpty sy t \<and> dest t \<notin> ss_keys seen \<union> ss_keys cur)"
    by simp
  show "expand_loop sy m cur seen = (if fn then expand_loop sy m nxt seen' else Some (Inr nxt))"
    by (subst expand_loop.simps) (simp add: p)
qed

theorem expand_terminates_witness:
  "nullAcyclic sampleSymbols machineChain \<and>
   (\<exists>n\<le>5. expand_passes n sampleSymbols machineChain [(0, [])] [] = Some (Inr [(2, ''01'')])) \<and>
   expand_loop sampleSymbols machineChain [(0, [])] [] = Some (Inr [(2, ''01'')]) \<and>
   expand_pass sampleSymbols machineChain [(0, [])] [] = Inr ([(1, ''0'')], [(0, [])], True) \<and>
   expand_loop sampleSymbols machineChain [(0, [])] []
     = expand_loop sampleSymbols machineChain [(1, ''0'')] [(0, [])]"
proof -
  have e: "nullEdges sampleSymbols machineChain = [(0, 1)]"
    by (simp add: nullEdges_def machineChain_def sampleSymbols_def outputEmpty_def upt_rec)
  have "acyclic ({} :: (nat \<times> nat) set)" by (simp add: acyclic_def)
  then have a: "nullAcyclic sampleSymbols machineChain"
    by (simp add: nullAcyclic_def e)
  have l: "length (state machineChain) + 2 = 5" by (simp add: machineChain_def)
  have v: "expand_loop sampleSymbols machineChain [(0, [])] [] = Some (Inr [(2, ''01'')])"
    using expand_Chain by (simp add: expand_def split: option.splits sum.splits)
  have p: "expand_pass sampleSymbols machineChain [(0, [])] [] = Inr ([(1, ''0'')], [(0, [])], True)"
    by (simp add: expand_pass_def eval_defs machineChain_def sampleSymbols_def)
  note t = expand_terminates [OF a, of "[(0, [])]" "[]", unfolded l v]
  from t have "\<exists>n\<le>5. expand_passes n sampleSymbols machineChain [(0, [])] [] = Some (Inr [(2, ''01'')])"
    by auto
  moreover from t p have "Some (Inr [(2, ''01'')])
      = expand_loop sampleSymbols machineChain [(1, ''0'')] [(0, [])]"
    by auto
  ultimately show ?thesis using a v p by simp
qed

end
